theory Spec2Isabelle
  imports Main
begin

section \<open>The vendoring script \<open>scripts/vendor.py\<close>\<close>

text \<open>
  The script relocates downloaded third-party packages under a private namespace.
  This theory embeds its three functions \<open>detect_vendored_libs\<close>,
  \<open>rewrite_imports\<close> and \<open>rewrite_file_imports\<close>, together with the part of
  Python's \<open>re\<close> module that the import rules use.

  Text is a \<open>string\<close>; a character is an Isabelle \<open>char\<close>, that is a code
  point below 256.
\<close>

subsection \<open>Paths and the directory tree\<close>

text \<open>
  A \<open>Path\<close> is the list of its components; \<open>destination / name\<close> is
  \<open>destination @ [name]\<close>, and \<open>str\<close> of a relative path joins the components
  with a slash.  A directory is the list of its entries in the order in which
  \<open>iterdir\<close> yields them; a file is its text.
\<close>

type_synonym path = "string list"

datatype node = File string | Dir "(string \<times> node) list"

fun is_dir :: "node \<Rightarrow> bool" where
  "is_dir (Dir entries) = True"
| "is_dir (File content) = False"

fun path_str :: "path \<Rightarrow> string" where
  "path_str [] = ''.''"
| "path_str [name] = name"
| "path_str (name # rest) = name @ ''/'' @ path_str rest"

definition endswith :: "string \<Rightarrow> string \<Rightarrow> bool" where
  "endswith s suffix =
     (length suffix \<le> length s \<and> drop (length s - length suffix) s = suffix)"

subsection \<open>Library detection\<close>

text \<open>
  \<open>detect_vendored_libs\<close> loops over the entries of the destination directory.  The
  loop state is the list \<open>vendored_libs\<close> and the lines printed so far.
\<close>

fun detect_loop :: "path \<Rightarrow> (string \<times> node) list \<Rightarrow> string list \<Rightarrow> string list
    \<Rightarrow> string list \<times> string list" where
  "detect_loop destination [] vendored_libs printed = (vendored_libs, printed)"
| "detect_loop destination ((name, item) # rest) vendored_libs printed =
     (if is_dir item then detect_loop destination rest (vendored_libs @ [name]) printed
      else if \<not> endswith name ''.py'' then
        detect_loop destination rest vendored_libs
          (printed @ [''Got unexpected non-Python file: '' @ path_str (destination @ [name])])
      else detect_loop destination rest (vendored_libs @ [take (length name - 3) name]) printed)"

definition detect_vendored_libs :: "path \<Rightarrow> (string \<times> node) list \<Rightarrow> string list \<times> string list" where
  "detect_vendored_libs destination entries = detect_loop destination entries [] []"

text \<open>The names and kinds of the direct children, with everything below them erased.\<close>

fun shallow :: "string \<times> node \<Rightarrow> string \<times> node" where
  "shallow (name, Dir entries) = (name, Dir [])"
| "shallow (name, File content) = (name, File [])"

definition dir_names :: "(string \<times> node) list \<Rightarrow> string list" where
  "dir_names entries = map fst (filter (\<lambda>e. is_dir (snd e)) entries)"

definition py_stems :: "(string \<times> node) list \<Rightarrow> string list" where
  "py_stems entries =
     map (\<lambda>e. take (length (fst e) - 3) (fst e))
       (filter (\<lambda>e. \<not> is_dir (snd e) \<and> endswith (fst e) ''.py'') entries)"

definition unexpected_files :: "(string \<times> node) list \<Rightarrow> string list" where
  "unexpected_files entries =
     map fst (filter (\<lambda>e. \<not> is_dir (snd e) \<and> \<not> endswith (fst e) ''.py'') entries)"

subsection \<open>Facts about detection\<close>

lemma detect_loop_acc:
  "detect_loop d es libs out =
     (libs @ fst (detect_loop d es [] []), out @ snd (detect_loop d es [] []))"
proof (induction es arbitrary: libs out)
  case Nil
  show ?case by simp
next
  case (Cons e es)
  obtain name item where e: "e = (name, item)" by (cases e)
  show ?case
    unfolding e
    using Cons.IH [of "libs @ [name]" out] Cons.IH [of "[name]" "[]"]
      Cons.IH [of libs "out @ [''Got unexpected non-Python file: '' @ path_str (d @ [name])]"]
      Cons.IH [of "[]" "[''Got unexpected non-Python file: '' @ path_str (d @ [name])]"]
      Cons.IH [of "libs @ [take (length name - 3) name]" out]
      Cons.IH [of "[take (length name - 3) name]" "[]"]
    by simp
qed

lemma detect_Cons:
  "detect_vendored_libs d ((name, item) # es) =
     (if is_dir item then (name # fst (detect_vendored_libs d es), snd (detect_vendored_libs d es))
      else if \<not> endswith name ''.py'' then
        (fst (detect_vendored_libs d es),
         (''Got unexpected non-Python file: '' @ path_str (d @ [name])) # snd (detect_vendored_libs d es))
      else (take (length name - 3) name # fst (detect_vendored_libs d es),
            snd (detect_vendored_libs d es)))"
  unfolding detect_vendored_libs_def
  using detect_loop_acc [of d es "[name]" "[]"]
    detect_loop_acc [of d es "[]" "[''Got unexpected non-Python file: '' @ path_str (d @ [name])]"]
    detect_loop_acc [of d es "[take (length name - 3) name]" "[]"]
  by simp

lemma detect_Nil: "detect_vendored_libs d [] = ([], [])"
  by (simp add: detect_vendored_libs_def)

lemma detect_libs_set:
  "set (fst (detect_vendored_libs d es)) = set (dir_names es) \<union> set (py_stems es)"
proof (induction es)
  case Nil
  show ?case by (simp add: detect_Nil dir_names_def py_stems_def)
next
  case (Cons e es)
  obtain name item where e: "e = (name, item)" by (cases e)
  from Cons.IH show ?case
    unfolding e by (auto simp: detect_Cons dir_names_def py_stems_def)
qed

lemma detect_printed:
  "snd (detect_vendored_libs d es) =
     map (\<lambda>name. ''Got unexpected non-Python file: '' @ path_str (d @ [name])) (unexpected_files es)"
proof (induction es)
  case Nil
  show ?case by (simp add: detect_Nil unexpected_files_def)
next
  case (Cons e es)
  obtain name item where e: "e = (name, item)" by (cases e)
  from Cons.IH show ?case
    unfolding e by (simp add: detect_Cons unexpected_files_def)
qed

lemma detect_shallow:
  "detect_vendored_libs d (map shallow es) = detect_vendored_libs d es"
proof (induction es)
  case Nil
  show ?case by simp
next
  case (Cons e es)
  obtain name item where e: "e = (name, item)" by (cases e)
  from Cons.IH show ?case
    unfolding e by (cases item) (simp_all add: detect_Cons)
qed


subsection \<open>The fragment of Python's \<open>re\<close> module used by the rewriter\<close>


abbreviation bsl :: char where "bsl \<equiv> CHR 0x5C"
abbreviation newline :: char where "newline \<equiv> CHR 0x0A"

definition isspace :: "char \<Rightarrow> bool" where
  "isspace c = (of_char c \<in> {9, 10, 11, 12, 13, 28, 29, 30, 31, 32, 133, 160 :: nat})"

datatype regex =
    Lit char | Any | Space | NonSpace
  | At_Beginning | At_Beginning_Line | At_End | At_End_Line
  | Empty | Seq regex regex | Alt regex regex
  | Star regex | Plus regex | Opt regex
  | Group nat regex | Look regex

type_synonym groups = "nat \<Rightarrow> (nat \<times> nat) option"

primrec rsize :: "regex \<Rightarrow> nat" where
  "rsize (Lit c) = 1" | "rsize Any = 1" | "rsize Space = 1" | "rsize NonSpace = 1"
| "rsize At_Beginning = 1" | "rsize At_Beginning_Line = 1" | "rsize At_End = 1" | "rsize At_End_Line = 1"
| "rsize Empty = 1"
| "rsize (Seq r1 r2) = Suc (rsize r1 + rsize r2)"
| "rsize (Alt r1 r2) = Suc (rsize r1 + rsize r2)"
| "rsize (Star r) = Suc (rsize r)"
| "rsize (Plus r) = Suc (Suc (rsize r))"
| "rsize (Opt r) = Suc (rsize r)"
| "rsize (Group n r) = Suc (rsize r)"
| "rsize (Look r) = Suc (rsize r)"

function rmatch :: "regex \<Rightarrow> string \<Rightarrow> nat \<Rightarrow> groups \<Rightarrow> (nat \<times> groups) list" where
  "rmatch (Lit c) s i g = (if i < length s \<and> s ! i = c then [(Suc i, g)] else [])"
| "rmatch Any s i g = (if i < length s \<and> s ! i \<noteq> newline then [(Suc i, g)] else [])"
| "rmatch Space s i g = (if i < length s \<and> isspace (s ! i) then [(Suc i, g)] else [])"
| "rmatch NonSpace s i g = (if i < length s \<and> \<not> isspace (s ! i) then [(Suc i, g)] else [])"
| "rmatch At_Beginning s i g = (if i = 0 then [(i, g)] else [])"
| "rmatch At_Beginning_Line s i g = (if i = 0 \<or> s ! (i - 1) = newline then [(i, g)] else [])"
| "rmatch At_End s i g =
     (if i = length s \<or> (Suc i = length s \<and> s ! i = newline) then [(i, g)] else [])"
| "rmatch At_End_Line s i g = (if i = length s \<or> s ! i = newline then [(i, g)] else [])"
| "rmatch Empty s i g = [(i, g)]"
| "rmatch (Seq r1 r2) s i g =
     concat (map (\<lambda>p. rmatch r2 s (fst p) (snd p)) (rmatch r1 s i g))"
| "rmatch (Alt r1 r2) s i g = rmatch r1 s i g @ rmatch r2 s i g"
| "rmatch (Star r) s i g =
     concat (map (\<lambda>p. rmatch (Star r) s (fst p) (snd p))
       (filter (\<lambda>p. i < fst p \<and> fst p \<le> length s) (rmatch r s i g))) @ [(i, g)]"
| "rmatch (Plus r) s i g =
     concat (map (\<lambda>p. rmatch (Star r) s (fst p) (snd p)) (rmatch r s i g))"
| "rmatch (Opt r) s i g = rmatch r s i g @ [(i, g)]"
| "rmatch (Group n r) s i g =
     map (\<lambda>p. (fst p, (snd p)(n \<mapsto> (i, fst p)))) (rmatch r s i g)"
| "rmatch (Look r) s i g = (case rmatch r s i g of [] \<Rightarrow> [] | p # ps \<Rightarrow> [(i, snd p)])"
  by pat_completeness auto
termination
  by (relation "(\<lambda>x. rsize (fst x)) <*mlex*> measure (\<lambda>x. length (fst (snd x)) - fst (snd (snd x)))")
     (auto simp: wf_mlex mlex_less mlex_leq)


declare rmatch.simps(12) [simp del]

lemma rmatch_bounds:
  "p \<in> set (rmatch r s i g) \<Longrightarrow> i \<le> fst p \<and> (fst p \<le> length s \<or> fst p = i)"
proof (induction r s i g arbitrary: p rule: rmatch.induct)
  case (10 r1 r2 s i g)
  then obtain q where q: "q \<in> set (rmatch r1 s i g)" and p: "p \<in> set (rmatch r2 s (fst q) (snd q))"
    by auto
  from "10.IH"(1) [OF q] "10.IH"(2) [OF q p] show ?case by auto
next
  case (12 r s i g)
  show ?case
  proof (cases "p = (i, g)")
    case True
    then show ?thesis by simp
  next
    case False
    have eq: "rmatch (Star r) s i g =
       concat (map (\<lambda>p. rmatch (Star r) s (fst p) (snd p))
         (filter (\<lambda>p. i < fst p \<and> fst p \<le> length s) (rmatch r s i g))) @ [(i, g)]"
      by (rule rmatch.simps)
    from "12.prems" False obtain q where q: "q \<in> set (rmatch r s i g)" and b: "i < fst q" "fst q \<le> length s"
      and p: "p \<in> set (rmatch (Star r) s (fst q) (snd q))"
      unfolding eq by auto
    from q b have "q \<in> set (filter (\<lambda>p. i < fst p \<and> fst p \<le> length s) (rmatch r s i g))" by simp
    from "12.IH"(2) [OF this p] b show ?thesis by auto
  qed
next
  case (13 r s i g)
  then obtain q where q: "q \<in> set (rmatch r s i g)" and p: "p \<in> set (rmatch (Star r) s (fst q) (snd q))"
    by auto
  from "13.IH"(1) [OF q] "13.IH"(2) [OF q p] show ?case by auto
next
  case (16 r s i g)
  then show ?case by (auto split: list.splits)
qed (fastforce split: if_splits)+

text \<open>first match at a position; must_advance refuses an empty match\<close>

definition match_at :: "regex \<Rightarrow> string \<Rightarrow> nat \<Rightarrow> bool \<Rightarrow> (nat \<times> groups) option" where
  "match_at r s i must_advance =
     find (\<lambda>p. \<not> (must_advance \<and> fst p = i)) (rmatch r s i Map.empty)"

function search_from :: "regex \<Rightarrow> string \<Rightarrow> nat \<Rightarrow> bool \<Rightarrow> (nat \<times> nat \<times> groups) option" where
  "search_from r s i must_advance =
     (case match_at r s i must_advance of
        Some p \<Rightarrow> Some (i, fst p, snd p)
      | None \<Rightarrow> if i < length s then search_from r s (Suc i) False else None)"
  by pat_completeness auto
termination
  by (relation "measure (\<lambda>x. length (fst (snd x)) - fst (snd (snd x)))") auto

declare search_from.simps [simp del]

datatype template_item = Literal char | Group_Ref nat

fun expand :: "template_item list \<Rightarrow> string \<Rightarrow> groups \<Rightarrow> string" where
  "expand [] s g = []"
| "expand (Literal c # t) s g = c # expand t s g"
| "expand (Group_Ref n # t) s g =
     (case g n of None \<Rightarrow> [] | Some (b, e) \<Rightarrow> take (e - b) (drop b s)) @ expand t s g"

lemma match_at_bounds:
  "match_at r s i adv = Some p \<Longrightarrow> i \<le> fst p \<and> (fst p \<le> length s \<or> fst p = i) \<and> (adv \<longrightarrow> fst p \<noteq> i)"
proof -
  assume a: "match_at r s i adv = Some p"
  then have "p \<in> set (rmatch r s i Map.empty)" and "\<not> (adv \<and> fst p = i)"
    by (auto simp: match_at_def find_Some_iff)
  with rmatch_bounds [of p r s i Map.empty] show ?thesis by auto
qed

lemma search_from_bounds:
  "search_from r s i adv = Some (b, e, g) \<Longrightarrow>
     i \<le> b \<and> b \<le> e \<and> (e \<le> length s \<or> e = b) \<and> (adv \<and> b = i \<longrightarrow> e \<noteq> b) \<and> (b \<le> length s \<or> b = i)"
proof (induction r s i adv rule: search_from.induct)
  case (1 r s i adv)
  show ?case
  proof (cases "match_at r s i adv")
    case None
    with "1.prems" have lt: "i < length s" and rec: "search_from r s (Suc i) False = Some (b, e, g)"
      by (auto simp: search_from.simps [of r s i adv] split: if_splits)
    from "1.IH" [OF None lt rec] lt show ?thesis by auto
  next
    case (Some p)
    with "1.prems" have "b = i" "e = fst p" by (auto simp: search_from.simps [of r s i adv])
    with match_at_bounds [OF Some] show ?thesis by auto
  qed
qed

function sub_loop :: "regex \<Rightarrow> template_item list \<Rightarrow> string \<Rightarrow> nat \<Rightarrow> bool \<Rightarrow> string" where
  "sub_loop r t s i must_advance =
     (case search_from r s i must_advance of
        None \<Rightarrow> drop i s
      | Some (b, e, g) \<Rightarrow> take (b - i) (drop i s) @ expand t s g @ sub_loop r t s e (e = b))"
  by pat_completeness auto
termination
proof (relation "measure (\<lambda>x. 2 * (length (fst (snd (snd x))) - fst (snd (snd (snd x))))
          + (if snd (snd (snd (snd x))) then 0 else 1))", goal_cases)
  case 1
  show ?case by simp
next
  case (2 r t s i adv x b y e g)
  then have "search_from r s i adv = Some (b, e, g)" by simp
  from search_from_bounds [OF this] show ?case by auto
qed

declare sub_loop.simps [simp del]


subsection \<open>Patterns and templates as strings\<close>

datatype token =
    TChar char | TDot | TSpace | TNonSpace | TCaret | TDollar
  | TOpen | TOpenLook | TClose | TBar | TStar | TPlus | TQuest | TBad

definition isalnum :: "char \<Rightarrow> bool" where
  "isalnum c = (let n = of_char c :: nat in
     (48 \<le> n \<and> n \<le> 57) \<or> (65 \<le> n \<and> n \<le> 90) \<or> (97 \<le> n \<and> n \<le> 122))"

definition escape :: "char \<Rightarrow> token" where
  "escape c = (if c = CHR ''s'' then TSpace else if c = CHR ''S'' then TNonSpace
     else if isalnum c then TBad else TChar c)"

definition plain_token :: "char \<Rightarrow> token" where
  "plain_token c =
     (if c = CHR ''.'' then TDot else if c = CHR ''^'' then TCaret
      else if c = CHR ''$'' then TDollar else if c = CHR '')'' then TClose
      else if c = CHR ''|'' then TBar else if c = CHR ''*'' then TStar
      else if c = CHR ''+'' then TPlus else if c = CHR ''?'' then TQuest
      else if c \<in> set ''[]{}'' then TBad
      else TChar c)"

fun lex :: "string \<Rightarrow> token list" where
  "lex [] = []"
| "lex (c # cs) =
     (if c = bsl then (case cs of [] \<Rightarrow> [TBad] | d # ds \<Rightarrow> escape d # lex ds)
      else if c = CHR ''('' then
        (case cs of
           [] \<Rightarrow> TOpen # lex cs
         | d # ds \<Rightarrow>
             if d = CHR ''?'' then
               (case ds of [] \<Rightarrow> [TBad]
                | e # es \<Rightarrow> if e = CHR ''='' then TOpenLook # lex es else [TBad])
             else TOpen # lex cs)
      else plain_token c # lex cs)"

datatype opener = Top | Capture nat | Lookahead

type_synonym frame = "opener \<times> regex list \<times> regex list"

fun seq :: "regex list \<Rightarrow> regex" where
  "seq [] = Empty"
| "seq (r # rs) = Seq r (seq rs)"

fun alt :: "regex list \<Rightarrow> regex" where
  "alt [] = Empty"
| "alt [r] = r"
| "alt (r # rs) = Alt r (alt rs)"

definition branches :: "regex list \<Rightarrow> regex list \<Rightarrow> regex" where
  "branches alts items = alt (alts @ [seq items])"

fun repeatable :: "regex \<Rightarrow> bool" where
  "repeatable (Lit c) = True"
| "repeatable Any = True"
| "repeatable Space = True"
| "repeatable NonSpace = True"
| "repeatable (Group n r) = True"
| "repeatable r = False"

definition repeat :: "(regex \<Rightarrow> regex) \<Rightarrow> frame \<Rightarrow> frame option" where
  "repeat q f = (case f of (k, alts, items) \<Rightarrow>
     if items \<noteq> [] \<and> repeatable (last items)
     then Some (k, alts, butlast items @ [q (last items)]) else None)"

definition push :: "regex \<Rightarrow> frame \<Rightarrow> frame" where
  "push r f = (case f of (k, alts, items) \<Rightarrow> (k, alts, items @ [r]))"

fun pstep :: "bool \<Rightarrow> token \<Rightarrow> frame list \<times> nat \<Rightarrow> (frame list \<times> nat) option" where
  "pstep ml tok ([], n) = None"
| "pstep ml (TChar c) (f # st, n) = Some (push (Lit c) f # st, n)"
| "pstep ml TDot (f # st, n) = Some (push Any f # st, n)"
| "pstep ml TSpace (f # st, n) = Some (push Space f # st, n)"
| "pstep ml TNonSpace (f # st, n) = Some (push NonSpace f # st, n)"
| "pstep ml TCaret (f # st, n) =
     Some (push (if ml then At_Beginning_Line else At_Beginning) f # st, n)"
| "pstep ml TDollar (f # st, n) = Some (push (if ml then At_End_Line else At_End) f # st, n)"
| "pstep ml TOpen (f # st, n) = Some ((Capture (Suc n), [], []) # f # st, Suc n)"
| "pstep ml TOpenLook (f # st, n) = Some ((Lookahead, [], []) # f # st, n)"
| "pstep ml TClose ((k, alts, items) # st, n) =
     (case st of
        [] \<Rightarrow> None
      | f # st' \<Rightarrow>
          (case k of
             Top \<Rightarrow> None
           | Capture m \<Rightarrow> Some (push (Group m (branches alts items)) f # st', n)
           | Lookahead \<Rightarrow> Some (push (Look (branches alts items)) f # st', n)))"
| "pstep ml TBar ((k, alts, items) # st, n) = Some ((k, alts @ [seq items], []) # st, n)"
| "pstep ml TStar (f # st, n) = map_option (\<lambda>f'. (f' # st, n)) (repeat Star f)"
| "pstep ml TPlus (f # st, n) = map_option (\<lambda>f'. (f' # st, n)) (repeat Plus f)"
| "pstep ml TQuest (f # st, n) = map_option (\<lambda>f'. (f' # st, n)) (repeat Opt f)"
| "pstep ml TBad (f # st, n) = None"

fun parse :: "bool \<Rightarrow> token list \<Rightarrow> frame list \<times> nat \<Rightarrow> (frame list \<times> nat) option" where
  "parse ml [] st = Some st"
| "parse ml (tok # toks) st =
     (case pstep ml tok st of None \<Rightarrow> None | Some st' \<Rightarrow> parse ml toks st')"

definition compile :: "string \<Rightarrow> bool \<Rightarrow> (regex \<times> nat) option" where
  "compile pattern multiline =
     (case parse multiline (lex pattern) ([(Top, [], [])], 0) of
        Some ([(Top, alts, items)], n) \<Rightarrow> Some (branches alts items, n)
      | _ \<Rightarrow> None)"

definition isdigit :: "char \<Rightarrow> bool" where
  "isdigit c = (48 \<le> (of_char c :: nat) \<and> (of_char c :: nat) \<le> 57)"

fun parse_template :: "string \<Rightarrow> template_item list option" where
  "parse_template [] = Some []"
| "parse_template (c # cs) =
     (if c = bsl then
        (case cs of
           [] \<Rightarrow> None
         | d # ds \<Rightarrow>
             if isdigit d \<and> d \<noteq> CHR ''0'' \<and> (case ds of [] \<Rightarrow> True | e # es \<Rightarrow> \<not> isdigit e)
             then map_option ((#) (Group_Ref (of_char d - 48))) (parse_template ds)
             else None)
      else map_option ((#) (Literal c)) (parse_template cs))"

fun group_refs_ok :: "nat \<Rightarrow> template_item list \<Rightarrow> bool" where
  "group_refs_ok n [] = True"
| "group_refs_ok n (Literal c # t) = group_refs_ok n t"
| "group_refs_ok n (Group_Ref k # t) = (k \<le> n \<and> group_refs_ok n t)"

datatype error = VendoringError string | Unsupported

definition re_sub :: "string \<Rightarrow> string \<Rightarrow> string \<Rightarrow> bool \<Rightarrow> error + string" where
  "re_sub pattern repl text multiline =
     (case compile pattern multiline of
        None \<Rightarrow> Inl Unsupported
      | Some (r, n) \<Rightarrow>
          (case parse_template repl of
             None \<Rightarrow> Inl Unsupported
           | Some t \<Rightarrow>
               if group_refs_ok n t then Inr (sub_loop r t text 0 False) else Inl Unsupported))"

definition re_search :: "string \<Rightarrow> string \<Rightarrow> bool \<Rightarrow> error + (nat \<times> nat \<times> groups) option" where
  "re_search pattern text multiline =
     (case compile pattern multiline of
        None \<Rightarrow> Inl Unsupported
      | Some (r, n) \<Rightarrow> Inr (search_from r text 0 False))"



subsection \<open>The import rewriter\<close>

text \<open>\<open>str\<close> of a non-negative integer, and \<open>match.group(n)\<close>.\<close>

fun str_of_nat :: "nat \<Rightarrow> string" where
  "str_of_nat n =
     (if n < 10 then [char_of (48 + n)]
      else str_of_nat (n div 10) @ [char_of (48 + n mod 10)])"

definition group_text :: "string \<Rightarrow> groups \<Rightarrow> nat \<Rightarrow> string" where
  "group_text s g n = (case g n of None \<Rightarrow> [] | Some (b, e) \<Rightarrow> take (e - b) (drop b s))"

text \<open>
  The four steps that \<open>rewrite_file_imports\<close> runs for one library, each with the
  pattern and the replacement that the source builds from \<open>lib\<close> and \<open>namespace\<close>;
  all four use \<open>re.MULTILINE\<close>.
\<close>

definition rewrite_plain_import :: "string \<Rightarrow> string \<Rightarrow> string \<Rightarrow> error + string" where
  "rewrite_plain_import namespace lib text =
     re_sub (''^('' @ bsl # ''s*)import '' @ lib @ ''('' @ bsl # ''s|$)'')
       (bsl # ''1from '' @ namespace @ '' import '' @ lib @ bsl # ''2'') text True"

definition rewrite_aliased_import :: "string \<Rightarrow> string \<Rightarrow> string \<Rightarrow> error + string" where
  "rewrite_aliased_import namespace lib text =
     re_sub (''^('' @ bsl # ''s*)import '' @ lib @ ''('' @ bsl # ''.'' @ bsl # ''S+)(?='' @ bsl # ''s+as)'')
       (bsl # ''1import '' @ namespace @ ''.'' @ lib @ bsl # ''2'') text True"

definition search_dotted_import :: "string \<Rightarrow> string \<Rightarrow> error + (nat \<times> nat \<times> groups) option" where
  "search_dotted_import lib text =
     re_search (''^'' @ bsl # ''s*(import '' @ lib @ bsl # ''.'' @ bsl # ''S+)'') text True"

definition rewrite_from_import :: "string \<Rightarrow> string \<Rightarrow> string \<Rightarrow> error + string" where
  "rewrite_from_import namespace lib text =
     re_sub (''^('' @ bsl # ''s*)from '' @ lib @ ''('' @ bsl # ''.|'' @ bsl # ''s)'')
       (bsl # ''1from '' @ namespace @ ''.'' @ lib @ bsl # ''2'') text True"

definition error_message :: "path \<Rightarrow> nat \<Rightarrow> string \<Rightarrow> string" where
  "error_message item line_number import_text =
     ''Encountered import that cannot be transformed for a namespace.'' @ [newline]
     @ ''File '' @ [CHR 0x22] @ path_str item @ [CHR 0x22] @ '', line '' @ str_of_nat line_number @ [newline]
     @ ''  '' @ import_text @ [newline]
     @ [newline]
     @ ''You will need to add a patch, that adapts the code to avoid a ''
     @ [CHR 0x60] @ ''import dotted.name'' @ [CHR 0x60] @ '' style import here; since those cannot be ''
     @ ''transformed for importing via a namespace.''"

definition rewrite_lib :: "path \<Rightarrow> string \<Rightarrow> string \<Rightarrow> string \<Rightarrow> error + string" where
  "rewrite_lib item namespace lib text =
     (case rewrite_plain_import namespace lib text of
        Inl err \<Rightarrow> Inl err
      | Inr text1 \<Rightarrow>
     (case rewrite_aliased_import namespace lib text1 of
        Inl err \<Rightarrow> Inl err
      | Inr text2 \<Rightarrow>
     (case search_dotted_import lib text2 of
        Inl err \<Rightarrow> Inl err
      | Inr (Some (start, end, g)) \<Rightarrow>
          Inl (VendoringError
            (error_message item (count_list (take start text2) newline + 1) (group_text text2 g 1)))
      | Inr None \<Rightarrow> rewrite_from_import namespace lib text2)))"

fun rewrite_libs :: "path \<Rightarrow> string \<Rightarrow> string list \<Rightarrow> string \<Rightarrow> error + string" where
  "rewrite_libs item namespace [] text = Inr text"
| "rewrite_libs item namespace (lib # vendored_libs) text =
     (case rewrite_lib item namespace lib text of
        Inl err \<Rightarrow> Inl err
      | Inr text' \<Rightarrow> rewrite_libs item namespace vendored_libs text')"

text \<open>
  A substitution is the pair \<open>(di["match"], di["replace"])\<close>; substitutions are applied
  without flags.
\<close>

type_synonym substitution = "string \<times> string"

fun apply_substitutions :: "substitution list \<Rightarrow> string \<Rightarrow> error + string" where
  "apply_substitutions [] text = Inr text"
| "apply_substitutions ((pattern, substitution) # substitutions) text =
     (case re_sub pattern substitution text False of
        Inl err \<Rightarrow> Inl err
      | Inr text' \<Rightarrow> apply_substitutions substitutions text')"

definition rewrite_text :: "path \<Rightarrow> string \<Rightarrow> string list \<Rightarrow> substitution list \<Rightarrow> string
    \<Rightarrow> error + string" where
  "rewrite_text item namespace vendored_libs substitutions text =
     (case apply_substitutions substitutions text of
        Inl err \<Rightarrow> Inl err
      | Inr text' \<Rightarrow>
          if namespace \<noteq> [] then rewrite_libs item namespace vendored_libs text' else Inr text')"

text \<open>
  File access is recorded as a trace of events.  \<open>rewrite_file_imports\<close> takes the
  text that \<open>read_text\<close> returns and gives back the text that the file holds afterwards,
  the events, and the exception raised, if any.
\<close>

datatype event = Read_Text path | Write_Text path string

definition rewrite_file_imports :: "path \<Rightarrow> string \<Rightarrow> string list \<Rightarrow> substitution list \<Rightarrow> string
    \<Rightarrow> string \<times> event list \<times> error option" where
  "rewrite_file_imports item namespace vendored_libs substitutions content =
     (case rewrite_text item namespace vendored_libs substitutions content of
        Inl err \<Rightarrow> (content, [Read_Text item], Some err)
      | Inr text \<Rightarrow> (text, [Read_Text item, Write_Text item text], None))"

fun rewrite_imports :: "path \<Rightarrow> string \<Rightarrow> string list \<Rightarrow> substitution list
    \<Rightarrow> (string \<times> node) list \<Rightarrow> (string \<times> node) list \<times> event list \<times> error option" where
  "rewrite_imports destination namespace vendored_libs substitutions [] = ([], [], None)"
| "rewrite_imports destination namespace vendored_libs substitutions ((name, Dir entries) # rest) =
     (case rewrite_imports (destination @ [name]) namespace vendored_libs substitutions entries of
        (entries', ev, Some err) \<Rightarrow> ((name, Dir entries') # rest, ev, Some err)
      | (entries', ev, None) \<Rightarrow>
          (case rewrite_imports destination namespace vendored_libs substitutions rest of
             (rest', ev', err) \<Rightarrow> ((name, Dir entries') # rest', ev @ ev', err)))"
| "rewrite_imports destination namespace vendored_libs substitutions ((name, File content) # rest) =
     (if endswith name ''.py'' then
        (case rewrite_file_imports (destination @ [name]) namespace vendored_libs substitutions content of
           (content', ev, Some err) \<Rightarrow> ((name, File content') # rest, ev, Some err)
         | (content', ev, None) \<Rightarrow>
             (case rewrite_imports destination namespace vendored_libs substitutions rest of
                (rest', ev', err) \<Rightarrow> ((name, File content') # rest', ev @ ev', err)))
      else
        (case rewrite_imports destination namespace vendored_libs substitutions rest of
           (rest', ev', err) \<Rightarrow> ((name, File content) # rest', ev', err)))"



declare str_of_nat.simps [simp del]

subsection \<open>Detection: the names found\<close>

lemma endswith_py_split:
  "endswith name ''.py'' \<Longrightarrow> name = take (length name - 3) name @ ''.py''"
  unfolding endswith_def
  by (metis append_take_drop_id length_Cons list.size(3) numeral_3_eq_3)

lemma py_stems_mem:
  "x \<in> set (py_stems es) \<Longrightarrow> x @ ''.py'' \<in> fst ` set es"
proof -
  assume "x \<in> set (py_stems es)"
  then obtain e where e: "e \<in> set es" "endswith (fst e) ''.py''" "x = take (length (fst e) - 3) (fst e)"
    by (auto simp: py_stems_def)
  from endswith_py_split [OF e(2)] e(3) have "x @ ''.py'' = fst e" by simp
  with e(1) show ?thesis by force
qed

lemma dir_names_mem: "x \<in> set (dir_names es) \<Longrightarrow> x \<in> fst ` set es"
  by (auto simp: dir_names_def)

lemma detect_distinct:
  "distinct (map fst es) \<Longrightarrow> set (dir_names es) \<inter> set (py_stems es) = {}
     \<Longrightarrow> distinct (fst (detect_vendored_libs d es))"
proof (induction es)
  case Nil
  show ?case by (simp add: detect_Nil)
next
  case (Cons e es)
  obtain name item where e: "e = (name, item)" by (cases e)
  from Cons.prems(1) have fresh: "name \<notin> fst ` set es" and dist: "distinct (map fst es)"
    by (auto simp: e)
  have sub: "set (dir_names es) \<subseteq> set (dir_names (e # es))" "set (py_stems es) \<subseteq> set (py_stems (e # es))"
    by (auto simp: dir_names_def py_stems_def)
  with Cons.prems(2) have "set (dir_names es) \<inter> set (py_stems es) = {}" by blast
  with Cons.IH dist have IH: "distinct (fst (detect_vendored_libs d es))" by simp
  show ?case
  proof (cases "is_dir item")
    case True
    then have "name \<in> set (dir_names (e # es))" by (simp add: e dir_names_def)
    with Cons.prems(2) sub have "name \<notin> set (py_stems es)" by blast
    moreover from fresh dir_names_mem have "name \<notin> set (dir_names es)" by blast
    ultimately show ?thesis using IH True by (simp add: e detect_Cons detect_libs_set)
  next
    case False
    show ?thesis
    proof (cases "endswith name ''.py''")
      case py: True
      let ?stem = "take (length name - 3) name"
      from False py have "?stem \<in> set (py_stems (e # es))" by (simp add: e py_stems_def)
      with Cons.prems(2) sub have a: "?stem \<notin> set (dir_names es)" by blast
      have b: "?stem \<notin> set (py_stems es)"
      proof
        assume "?stem \<in> set (py_stems es)"
        from py_stems_mem [OF this] endswith_py_split [OF py] fresh show False by simp
      qed
      from a b IH False py show ?thesis by (simp add: e detect_Cons detect_libs_set)
    next
      case nopy: False
      with False IH show ?thesis by (simp add: e detect_Cons)
    qed
  qed
qed

text \<open>
  Claim C6.  Detection returns exactly the names of the subdirectories together with the
  stems of the files whose name ends in \<open>.py\<close>; every other file is reported, in order,
  and skipped; and the result depends only on the names and kinds of the direct children
  of the destination directory, never on anything below them.
\<close>

theorem detect_vendored_libs_exact:
  "set (fst (detect_vendored_libs destination entries)) =
       {name. \<exists>sub. (name, Dir sub) \<in> set entries}
     \<union> {take (length name - 3) name | name content.
          (name, File content) \<in> set entries \<and> endswith name ''.py''}
   \<and> snd (detect_vendored_libs destination entries) =
       map (\<lambda>name. ''Got unexpected non-Python file: '' @ path_str (destination @ [name]))
         (unexpected_files entries)
   \<and> set (unexpected_files entries) =
       {name. \<exists>content. (name, File content) \<in> set entries \<and> \<not> endswith name ''.py''}
   \<and> detect_vendored_libs destination (map shallow entries) =
       detect_vendored_libs destination entries"
proof -
  have dirs: "set (dir_names entries) = {name. \<exists>sub. (name, Dir sub) \<in> set entries}"
  proof (rule set_eqI)
    fix x
    show "x \<in> set (dir_names entries) \<longleftrightarrow> x \<in> {name. \<exists>sub. (name, Dir sub) \<in> set entries}"
    proof
      assume "x \<in> set (dir_names entries)"
      then obtain e where e: "e \<in> set entries" "is_dir (snd e)" "x = fst e"
        by (auto simp: dir_names_def)
      then obtain sub where "snd e = Dir sub" by (cases "snd e") auto
      with e have "(x, Dir sub) \<in> set entries" by (metis prod.collapse)
      then show "x \<in> {name. \<exists>sub. (name, Dir sub) \<in> set entries}" by blast
    next
      assume "x \<in> {name. \<exists>sub. (name, Dir sub) \<in> set entries}"
      then show "x \<in> set (dir_names entries)" by (force simp: dir_names_def)
    qed
  qed
  have files: "\<not> is_dir item \<longleftrightarrow> (\<exists>content. item = File content)" for item
    by (cases item) auto
  have stems: "set (py_stems entries) =
      {take (length name - 3) name | name content.
          (name, File content) \<in> set entries \<and> endswith name ''.py''}"
    unfolding py_stems_def by (force simp: files)
  have unexp: "set (unexpected_files entries) =
       {name. \<exists>content. (name, File content) \<in> set entries \<and> \<not> endswith name ''.py''}"
    unfolding unexpected_files_def by (force simp: files)
  show ?thesis
    using detect_libs_set [of destination entries] detect_printed [of destination entries]
      detect_shallow [of destination entries] dirs stems unexp
    by simp
qed

text \<open>
  Claim C7 as stated fails: a directory \<open>a\<close> beside a file \<open>a.py\<close> yields the
  name \<open>a\<close> twice.
\<close>

theorem detect_duplicate_counterexample:
  "fst (detect_vendored_libs [''dst''] [(''a'', Dir []), (''a.py'', File [])]) = [''a'', ''a'']
   \<and> \<not> distinct (fst (detect_vendored_libs [''dst''] [(''a'', Dir []), (''a.py'', File [])]))"
  by (simp add: detect_vendored_libs_def endswith_def)

text \<open>
  Claim C7, amended.  The names of the entries of a directory are pairwise distinct.  If
  in addition no subdirectory carries the name that a \<open>.py\<close> file has as its stem, the
  list of detected names has no duplicates.
\<close>

theorem detect_vendored_libs_distinct:
  assumes "distinct (map fst entries)"
    and "set (dir_names entries) \<inter> set (py_stems entries) = {}"
  shows "distinct (fst (detect_vendored_libs destination entries))"
  using assms by (rule detect_distinct)

theorem detect_vendored_libs_distinct_witness:
  "distinct (map fst [(''jedi'', Dir []), (''six.py'', File []), (''README'', File [])])
   \<and> set (dir_names [(''jedi'', Dir []), (''six.py'', File []), (''README'', File [])])
       \<inter> set (py_stems [(''jedi'', Dir []), (''six.py'', File []), (''README'', File [])]) = {}
   \<and> fst (detect_vendored_libs [''dst''] [(''jedi'', Dir []), (''six.py'', File []), (''README'', File [])])
       = [''jedi'', ''six'']
   \<and> distinct (fst (detect_vendored_libs [''dst''] [(''jedi'', Dir []), (''six.py'', File []), (''README'', File [])]))"
proof -
  have d: "distinct (map fst [(''jedi'', Dir []), (''six.py'', File []), (''README'', File [])])"
    by simp
  have i: "set (dir_names [(''jedi'', Dir []), (''six.py'', File []), (''README'', File [])])
       \<inter> set (py_stems [(''jedi'', Dir []), (''six.py'', File []), (''README'', File [])]) = {}"
    by (simp add: dir_names_def py_stems_def endswith_def)
  have v: "fst (detect_vendored_libs [''dst''] [(''jedi'', Dir []), (''six.py'', File []), (''README'', File [])])
       = [''jedi'', ''six'']"
    by (simp add: detect_vendored_libs_def endswith_def)
  from d i v detect_vendored_libs_distinct [OF d i, of "[''dst'']"] show ?thesis by simp
qed


subsection \<open>The walk over the tree\<close>


fun py_files :: "path \<Rightarrow> (string \<times> node) list \<Rightarrow> (path \<times> string) list" where
  "py_files d [] = []"
| "py_files d ((name, Dir entries) # rest) = py_files (d @ [name]) entries @ py_files d rest"
| "py_files d ((name, File content) # rest) =
     (if endswith name ''.py'' then [(d @ [name], content)] else []) @ py_files d rest"

fun skeleton :: "(string \<times> node) list \<Rightarrow> (string \<times> node) list" where
  "skeleton [] = []"
| "skeleton ((name, Dir entries) # rest) = (name, Dir (skeleton entries)) # skeleton rest"
| "skeleton ((name, File content) # rest) =
     (name, File (if endswith name ''.py'' then [] else content)) # skeleton rest"

fun flat_run :: "string \<Rightarrow> string list \<Rightarrow> substitution list \<Rightarrow> (path \<times> string) list
    \<Rightarrow> (path \<times> string) list \<times> event list \<times> error option" where
  "flat_run ns libs subs [] = ([], [], None)"
| "flat_run ns libs subs ((p, c) # fs) =
     (case rewrite_file_imports p ns libs subs c of
        (c', ev, Some err) \<Rightarrow> ((p, c') # fs, ev, Some err)
      | (c', ev, None) \<Rightarrow>
          (case flat_run ns libs subs fs of
             (fs', ev', err) \<Rightarrow> ((p, c') # fs', ev @ ev', err)))"

lemma flat_run_append:
  "flat_run ns libs subs (fs1 @ fs2) =
     (case flat_run ns libs subs fs1 of
        (fs1', ev, Some err) \<Rightarrow> (fs1' @ fs2, ev, Some err)
      | (fs1', ev, None) \<Rightarrow>
          (case flat_run ns libs subs fs2 of
             (fs2', ev', err) \<Rightarrow> (fs1' @ fs2', ev @ ev', err)))"
proof (induction fs1)
  case Nil
  show ?case by (simp split: prod.splits)
next
  case (Cons f fs1)
  obtain p c where f: "f = (p, c)" by (cases f)
  show ?case
    unfolding f using Cons.IH
    by (simp split: prod.splits option.splits)
qed

lemma walk_is_flat_run:
  "flat_run ns libs subs (py_files d es) =
     (py_files d (fst (rewrite_imports d ns libs subs es)), snd (rewrite_imports d ns libs subs es))
   \<and> skeleton (fst (rewrite_imports d ns libs subs es)) = skeleton es"
proof (induction d ns libs subs es rule: rewrite_imports.induct)
  case (1 d ns libs subs)
  show ?case by simp
next
  case (2 d ns libs subs name entries rest)
  show ?case
  proof (cases "rewrite_imports (d @ [name]) ns libs subs entries")
    case (fields entries' ev err)
    show ?thesis
    proof (cases err)
      case None
      with fields "2.IH"(1) "2.IH"(2) [OF fields [THEN sym] refl None] show ?thesis
        by (auto simp: flat_run_append split: prod.splits)
    next
      case (Some e)
      with fields "2.IH"(1) show ?thesis
        by (auto simp: flat_run_append split: prod.splits)
    qed
  qed
next
  case (3 d ns libs subs name content rest)
  show ?case
  proof (cases "endswith name ''.py''")
    case False
    with "3.IH"(2) show ?thesis by (auto split: prod.splits)
  next
    case True
    show ?thesis
    proof (cases "rewrite_file_imports (d @ [name]) ns libs subs content")
      case (fields content' ev err)
      show ?thesis
      proof (cases err)
        case None
        with True fields "3.IH"(1) [OF True fields [THEN sym] refl None] show ?thesis
          by (auto split: prod.splits)
      next
        case (Some e)
        with True fields show ?thesis by simp
      qed
    qed
  qed
qed


fun event_path :: "event \<Rightarrow> path" where
  "event_path (Read_Text p) = p"
| "event_path (Write_Text p text) = p"

lemma flat_run_paths:
  "map fst (fst (flat_run ns libs subs fs)) = map fst fs
   \<and> set (map event_path (fst (snd (flat_run ns libs subs fs)))) \<subseteq> fst ` set fs"
proof (induction fs)
  case Nil
  show ?case by simp
next
  case (Cons f fs)
  obtain p c where f: "f = (p, c)" by (cases f)
  obtain c' ev0 err where r: "rewrite_file_imports p ns libs subs c = (c', ev0, err)"
    by (cases "rewrite_file_imports p ns libs subs c")
  then have evp: "\<And>x. x \<in> set ev0 \<Longrightarrow> event_path x = p"
    by (auto simp: rewrite_file_imports_def split: sum.splits)
  show ?case
  proof (cases err)
    case (Some e)
    with r evp show ?thesis by (auto simp: f)
  next
    case None
    obtain fs' ev' err' where rr: "flat_run ns libs subs fs = (fs', ev', err')"
      by (cases "flat_run ns libs subs fs")
    with Cons.IH have "map fst fs' = map fst fs" and "\<And>x. x \<in> set ev' \<Longrightarrow> event_path x \<in> fst ` set fs"
      by auto
    with None r rr evp show ?thesis by (auto simp: f)
  qed
qed

lemma py_files_names:
  "list_all (\<lambda>f. endswith (last (fst f)) ''.py'') (py_files d es)"
  by (induction d es rule: py_files.induct) simp_all

lemma flat_run_fail:
  assumes "list_all (\<lambda>f. isl (rewrite_text (fst f) ns libs subs (snd f)) = False) before"
    and "rewrite_text item ns libs subs content = Inl err"
  shows "flat_run ns libs subs (before @ (item, content) # after) =
     (map (\<lambda>f. (fst f, fst (rewrite_file_imports (fst f) ns libs subs (snd f)))) before
        @ (item, content) # after,
      concat (map (\<lambda>f. [Read_Text (fst f),
          Write_Text (fst f) (fst (rewrite_file_imports (fst f) ns libs subs (snd f)))]) before)
        @ [Read_Text item],
      Some err)"
  using assms(1)
proof (induction before)
  case Nil
  from assms(2) show ?case by (simp add: rewrite_file_imports_def)
next
  case (Cons f before)
  obtain p c where f: "f = (p, c)" by (cases f)
  from Cons.prems obtain t where t: "rewrite_text p ns libs subs c = Inr t"
    by (cases "rewrite_text p ns libs subs c") (auto simp: f)
  from Cons.prems have "list_all (\<lambda>f. isl (rewrite_text (fst f) ns libs subs (snd f)) = False) before"
    by simp
  from Cons.IH [OF this] t show ?case
    by (simp add: f rewrite_file_imports_def)
qed

text \<open>
  Claim C9.  Let the \<open>.py\<close> files of the tree, in the order of the walk, be \<open>before\<close>,
  then \<open>item\<close>, then \<open>after\<close>, where every file of \<open>before\<close> is rewritten without
  error and rewriting \<open>item\<close> raises \<open>err\<close>.  Then the walk ends with that error; its
  last event is the read of \<open>item\<close>, so nothing of \<open>after\<close> is read or written; the
  files of \<open>before\<close> hold their rewritten text, and \<open>item\<close> and the files of \<open>after\<close>
  hold their original text.
\<close>

theorem walk_halts_at_first_error:
  assumes "py_files destination entries = before @ (item, content) # after"
    and "list_all (\<lambda>f. isl (rewrite_text (fst f) namespace vendored_libs substitutions (snd f)) = False) before"
    and "rewrite_text item namespace vendored_libs substitutions content = Inl err"
  shows "snd (rewrite_imports destination namespace vendored_libs substitutions entries) =
       (concat (map (\<lambda>f. [Read_Text (fst f),
            Write_Text (fst f)
              (fst (rewrite_file_imports (fst f) namespace vendored_libs substitutions (snd f)))]) before)
          @ [Read_Text item],
        Some err)
     \<and> py_files destination (fst (rewrite_imports destination namespace vendored_libs substitutions entries)) =
       map (\<lambda>f. (fst f, fst (rewrite_file_imports (fst f) namespace vendored_libs substitutions (snd f)))) before
         @ (item, content) # after
     \<and> skeleton (fst (rewrite_imports destination namespace vendored_libs substitutions entries)) =
       skeleton entries"
  using walk_is_flat_run [of namespace vendored_libs substitutions destination entries]
    flat_run_fail [OF assms(2) assms(3), of after]
  unfolding assms(1) by simp

text \<open>
  Claim C10.  Whether the walk succeeds or fails, the tree keeps its shape: the same
  directories and the same file names at the same places, and every file whose name does
  not end in \<open>.py\<close> keeps its text.  Every read and every write of the trace is at the
  path of a \<open>.py\<close> file of the original tree.
\<close>

theorem rewrite_imports_frame:
  "skeleton (fst (rewrite_imports destination namespace vendored_libs substitutions entries)) =
       skeleton entries
   \<and> map fst (py_files destination
         (fst (rewrite_imports destination namespace vendored_libs substitutions entries))) =
       map fst (py_files destination entries)
   \<and> set (map event_path
         (fst (snd (rewrite_imports destination namespace vendored_libs substitutions entries))))
       \<subseteq> set (map fst (py_files destination entries))
   \<and> list_all (\<lambda>f. endswith (last (fst f)) ''.py'') (py_files destination entries)"
proof -
  let ?R = "rewrite_imports destination namespace vendored_libs substitutions entries"
  let ?fs = "py_files destination entries"
  from walk_is_flat_run [of namespace vendored_libs substitutions destination entries]
  have flat: "flat_run namespace vendored_libs substitutions ?fs = (py_files destination (fst ?R), snd ?R)"
    and skel: "skeleton (fst ?R) = skeleton entries"
    by simp_all
  from flat_run_paths [of namespace vendored_libs substitutions ?fs] flat
  have "map fst (py_files destination (fst ?R)) = map fst ?fs"
    and "set (map event_path (fst (snd ?R))) \<subseteq> set (map fst ?fs)"
    by simp_all
  with skel py_files_names [of destination entries] show ?thesis by simp
qed


theorem walk_halts_at_first_error_witness:
  "py_files [''dst'']
      [(''a.py'', File ''import pkgA''),
       (''pkgA'', Dir [(''__init__.py'', File ''import pkgA.util''), (''notes.txt'', File ''import pkgA.util'')]),
       (''z.py'', File ''import pkgA'')]
     = [([''dst'', ''a.py''], ''import pkgA'')] @ ([''dst'', ''pkgA'', ''__init__.py''], ''import pkgA.util'')
         # [([''dst'', ''z.py''], ''import pkgA'')]
   \<and> rewrite_text [''dst'', ''a.py''] ''vend'' [''pkgA''] [] ''import pkgA'' = Inr ''from vend import pkgA''
   \<and> rewrite_text [''dst'', ''pkgA'', ''__init__.py''] ''vend'' [''pkgA''] [] ''import pkgA.util''
       = Inl (VendoringError (error_message [''dst'', ''pkgA'', ''__init__.py''] 1 ''import pkgA.util''))
   \<and> snd (rewrite_imports [''dst''] ''vend'' [''pkgA''] []
        [(''a.py'', File ''import pkgA''),
         (''pkgA'', Dir [(''__init__.py'', File ''import pkgA.util''), (''notes.txt'', File ''import pkgA.util'')]),
         (''z.py'', File ''import pkgA'')])
     = ([Read_Text [''dst'', ''a.py''], Write_Text [''dst'', ''a.py''] ''from vend import pkgA'',
         Read_Text [''dst'', ''pkgA'', ''__init__.py'']],
        Some (VendoringError (error_message [''dst'', ''pkgA'', ''__init__.py''] 1 ''import pkgA.util'')))
   \<and> py_files [''dst''] (fst (rewrite_imports [''dst''] ''vend'' [''pkgA''] []
        [(''a.py'', File ''import pkgA''),
         (''pkgA'', Dir [(''__init__.py'', File ''import pkgA.util''), (''notes.txt'', File ''import pkgA.util'')]),
         (''z.py'', File ''import pkgA'')]))
     = [([''dst'', ''a.py''], ''from vend import pkgA''),
        ([''dst'', ''pkgA'', ''__init__.py''], ''import pkgA.util''),
        ([''dst'', ''z.py''], ''import pkgA'')]"
proof -
  let ?es = "[(''a.py'', File ''import pkgA''),
       (''pkgA'', Dir [(''__init__.py'', File ''import pkgA.util''), (''notes.txt'', File ''import pkgA.util'')]),
       (''z.py'', File ''import pkgA'')]"
  have h1: "py_files [''dst''] ?es
     = [([''dst'', ''a.py''], ''import pkgA'')] @ ([''dst'', ''pkgA'', ''__init__.py''], ''import pkgA.util'')
         # [([''dst'', ''z.py''], ''import pkgA'')]"
    by (simp add: endswith_def)
  have ok: "rewrite_text [''dst'', ''a.py''] ''vend'' [''pkgA''] [] ''import pkgA'' = Inr ''from vend import pkgA''"
    by code_simp
  then have h2: "list_all (\<lambda>f. isl (rewrite_text (fst f) ''vend'' [''pkgA''] [] (snd f)) = False)
      [([''dst'', ''a.py''], ''import pkgA'')]"
    by simp
  have h3: "rewrite_text [''dst'', ''pkgA'', ''__init__.py''] ''vend'' [''pkgA''] [] ''import pkgA.util''
       = Inl (VendoringError (error_message [''dst'', ''pkgA'', ''__init__.py''] 1 ''import pkgA.util''))"
    by code_simp
  from walk_halts_at_first_error [OF h1 h2 h3] h1 ok h3 show ?thesis
    by (simp add: rewrite_file_imports_def)
qed





text \<open>
  Claim C5 as stated fails.  In a file with the lines \<open>import a\<close> and \<open>import a.b\<close>
  the first rule rewrites the first line, the check for dotted imports then raises, and
  nothing is written: the file keeps its original text.
\<close>

theorem write_on_error_counterexample:
  "rewrite_plain_import ''vend'' ''a'' (''import a'' @ [newline] @ ''import a.b'')
     = Inr (''from vend import a'' @ [newline] @ ''import a.b'')
   \<and> rewrite_file_imports [''pkg'', ''m.py''] ''vend'' [''a''] [] (''import a'' @ [newline] @ ''import a.b'')
     = (''import a'' @ [newline] @ ''import a.b'', [Read_Text [''pkg'', ''m.py'']],
        Some (VendoringError (error_message [''pkg'', ''m.py''] 2 ''import a.b'')))"
  by code_simp

text \<open>
  Claim C5, amended.  When all rules run without error, the transformed text is written
  back to the file.  When an error is raised, the file is read but not written, and it
  keeps its original content.
\<close>

theorem rewrite_file_imports_write_back:
  "(rewrite_text item namespace vendored_libs substitutions content = Inr text \<longrightarrow>
      rewrite_file_imports item namespace vendored_libs substitutions content =
        (text, [Read_Text item, Write_Text item text], None))
   \<and> (rewrite_text item namespace vendored_libs substitutions content = Inl err \<longrightarrow>
      rewrite_file_imports item namespace vendored_libs substitutions content =
        (content, [Read_Text item], Some err))"
  by (simp add: rewrite_file_imports_def)

theorem rewrite_file_imports_write_back_witness:
  "rewrite_file_imports [''pkg'', ''m.py''] ''vend'' [''a''] [] ''from a import x''
     = (''from vend.a import x'',
        [Read_Text [''pkg'', ''m.py''], Write_Text [''pkg'', ''m.py''] ''from vend.a import x''], None)
   \<and> rewrite_file_imports [''pkg'', ''m.py''] ''vend'' [''a''] [] ''import a.b''
     = (''import a.b'', [Read_Text [''pkg'', ''m.py'']],
        Some (VendoringError (error_message [''pkg'', ''m.py''] 1 ''import a.b'')))"
proof -
  have ok: "rewrite_text [''pkg'', ''m.py''] ''vend'' [''a''] [] ''from a import x'' = Inr ''from vend.a import x''"
    by code_simp
  have bad: "rewrite_text [''pkg'', ''m.py''] ''vend'' [''a''] [] ''import a.b''
      = Inl (VendoringError (error_message [''pkg'', ''m.py''] 1 ''import a.b''))"
    by code_simp
  from rewrite_file_imports_write_back [of "[''pkg'', ''m.py'']" "''vend''" "[''a'']" "[]"
      "''from a import x''" "''from vend.a import x''"] ok
    rewrite_file_imports_write_back [of "[''pkg'', ''m.py'']" "''vend''" "[''a'']" "[]"
      "''import a.b''" _ "VendoringError (error_message [''pkg'', ''m.py''] 1 ''import a.b'')"] bad
  show ?thesis by simp
qed


section \<open>The import rules\<close>

subsection \<open>Names and the compiled patterns\<close>

definition isident :: "char \<Rightarrow> bool" where
  "isident c = (isalnum c \<or> c = CHR ''_'')"

lemma isident_code:
  "isident c \<Longrightarrow> (of_char c :: nat) \<in> {48..57} \<union> {65..90} \<union> {97..122} \<union> {95}"
  unfolding isident_def isalnum_def Let_def by auto

lemma isident_neq:
  "isident c \<Longrightarrow> (of_char d :: nat) \<notin> {48..57} \<union> {65..90} \<union> {97..122} \<union> {95} \<Longrightarrow> c \<noteq> d"
  using isident_code by blast

lemma isident_plain:
  assumes "isident c"
  shows "c \<noteq> bsl" and "c \<noteq> CHR ''(''" and "plain_token c = TChar c"
proof -
  note n = isident_neq [OF assms]
  show "c \<noteq> bsl" by (rule n) simp
  show "c \<noteq> CHR ''(''" by (rule n) simp
  have "c \<noteq> CHR ''.''" "c \<noteq> CHR ''^''" "c \<noteq> CHR ''$''" "c \<noteq> CHR '')''" "c \<noteq> CHR ''|''"
    "c \<noteq> CHR ''*''" "c \<noteq> CHR ''+''" "c \<noteq> CHR ''?''" "c \<noteq> CHR ''[''" "c \<noteq> CHR '']''"
    "c \<noteq> CHR ''{''" "c \<noteq> CHR ''}''"
    by (rule n, simp)+
  then show "plain_token c = TChar c" by (simp add: plain_token_def)
qed

lemma isident_not_space:
  assumes "isident c"
  shows "\<not> isspace c" and "c \<noteq> newline" and "c \<noteq> CHR ''.''" and "c \<noteq> CHR '' ''"
proof -
  from isident_code [OF assms] show "\<not> isspace c" unfolding isspace_def by auto
  note n = isident_neq [OF assms]
  show "c \<noteq> newline" by (rule n) simp
  show "c \<noteq> CHR ''.''" by (rule n) simp
  show "c \<noteq> CHR '' ''" by (rule n) simp
qed

lemma lex_plain:
  "list_all isident cs \<Longrightarrow> lex (cs @ rest) = map TChar cs @ lex rest"
proof (induction cs)
  case Nil
  show ?case by simp
next
  case (Cons c cs)
  then have c: "isident c" and cs: "list_all isident cs" by simp_all
  from isident_plain [OF c] Cons.IH [OF cs] show ?case by simp
qed

lemma parse_chars:
  "parse ml (map TChar cs @ toks) ((k, alts, items) # st, n) =
     parse ml toks ((k, alts, items @ map Lit cs) # st, n)"
proof (induction cs arbitrary: items)
  case Nil
  show ?case by simp
next
  case (Cons c cs)
  show ?case using Cons.IH [of "items @ [Lit c]"] by (simp add: push_def)
qed

definition plain_import_regex :: "string \<Rightarrow> regex" where
  "plain_import_regex lib =
     seq ([At_Beginning_Line, Group 1 (Seq (Star Space) Empty)] @ map Lit (''import '' @ lib)
       @ [Group 2 (Alt (Seq Space Empty) (Seq At_End_Line Empty))])"

lemma compile_plain_import:
  "list_all isident lib \<Longrightarrow>
     compile (''^('' @ bsl # ''s*)import '' @ lib @ ''('' @ bsl # ''s|$)'') True
       = Some (plain_import_regex lib, 2)"
  by (simp add: compile_def lex_plain parse_chars plain_import_regex_def escape_def plain_token_def
      push_def repeat_def branches_def numeral_2_eq_2)


definition aliased_import_regex :: "string \<Rightarrow> regex" where
  "aliased_import_regex lib =
     seq ([At_Beginning_Line, Group 1 (Seq (Star Space) Empty)] @ map Lit (''import '' @ lib)
       @ [Group 2 (Seq (Lit CHR ''.'') (Seq (Plus NonSpace) Empty)),
          Look (Seq (Plus Space) (Seq (Lit CHR ''a'') (Seq (Lit CHR ''s'') Empty)))])"

definition dotted_import_regex :: "string \<Rightarrow> regex" where
  "dotted_import_regex lib =
     seq [At_Beginning_Line, Star Space,
          Group 1 (seq (map Lit (''import '' @ lib) @ [Lit CHR ''.'', Plus NonSpace]))]"

definition from_import_regex :: "string \<Rightarrow> regex" where
  "from_import_regex lib =
     seq ([At_Beginning_Line, Group 1 (Seq (Star Space) Empty)] @ map Lit (''from '' @ lib)
       @ [Group 2 (Alt (Seq (Lit CHR ''.'') Empty) (Seq Space Empty))])"

lemma compile_aliased_import:
  "list_all isident lib \<Longrightarrow>
     compile (''^('' @ bsl # ''s*)import '' @ lib @ ''('' @ bsl # ''.'' @ bsl # ''S+)(?='' @ bsl # ''s+as)'') True
       = Some (aliased_import_regex lib, 2)"
  by (simp add: compile_def lex_plain parse_chars aliased_import_regex_def escape_def plain_token_def
      push_def repeat_def branches_def numeral_2_eq_2 isalnum_def)

lemma compile_dotted_import:
  "list_all isident lib \<Longrightarrow>
     compile (''^'' @ bsl # ''s*(import '' @ lib @ bsl # ''.'' @ bsl # ''S+)'') True
       = Some (dotted_import_regex lib, 1)"
  by (simp add: compile_def lex_plain parse_chars dotted_import_regex_def escape_def plain_token_def
      push_def repeat_def branches_def isalnum_def butlast_append)

lemma compile_from_import:
  "list_all isident lib \<Longrightarrow>
     compile (''^('' @ bsl # ''s*)from '' @ lib @ ''('' @ bsl # ''.|'' @ bsl # ''s)'') True
       = Some (from_import_regex lib, 2)"
  by (simp add: compile_def lex_plain parse_chars from_import_regex_def escape_def plain_token_def
      push_def repeat_def branches_def numeral_2_eq_2 isalnum_def)

lemma parse_template_literals:
  "bsl \<notin> set cs \<Longrightarrow>
     parse_template (cs @ rest) = map_option ((@) (map Literal cs)) (parse_template rest)"
proof (induction cs)
  case Nil
  show ?case by (cases "parse_template rest") simp_all
next
  case (Cons c cs)
  then have "c \<noteq> bsl" and "bsl \<notin> set cs" by auto
  with Cons.IH show ?case by (cases "parse_template rest") simp_all
qed

definition isdotted :: "char \<Rightarrow> bool" where
  "isdotted c = (isident c \<or> c = CHR ''.'')"

lemma isdotted_facts:
  assumes "isdotted c"
  shows "c \<noteq> bsl" and "\<not> isspace c" and "c \<noteq> newline"
proof -
  show "c \<noteq> bsl" using assms isident_plain(1) [of c] by (auto simp: isdotted_def)
  show "\<not> isspace c" using assms isident_not_space(1) [of c] by (auto simp: isdotted_def isspace_def)
  show "c \<noteq> newline" using assms isident_not_space(2) [of c] by (auto simp: isdotted_def)
qed

lemma no_bsl_ident: "list_all isident cs \<Longrightarrow> bsl \<notin> set cs"
  using isident_plain(1) by (auto simp: list_all_iff)

lemma no_bsl_dotted: "list_all isdotted cs \<Longrightarrow> bsl \<notin> set cs"
  using isdotted_facts(1) by (auto simp: list_all_iff)

lemma template_plain_import:
  "bsl \<notin> set namespace \<Longrightarrow> bsl \<notin> set lib \<Longrightarrow>
     parse_template (bsl # ''1from '' @ namespace @ '' import '' @ lib @ bsl # ''2'')
       = Some (Group_Ref 1 # map Literal (''from '' @ namespace @ '' import '' @ lib) @ [Group_Ref 2])"
  by (simp add: parse_template_literals isdigit_def)

lemma template_aliased_import:
  "bsl \<notin> set namespace \<Longrightarrow> bsl \<notin> set lib \<Longrightarrow>
     parse_template (bsl # ''1import '' @ namespace @ ''.'' @ lib @ bsl # ''2'')
       = Some (Group_Ref 1 # map Literal (''import '' @ namespace @ ''.'' @ lib) @ [Group_Ref 2])"
  by (simp add: parse_template_literals isdigit_def)

lemma template_from_import:
  "bsl \<notin> set namespace \<Longrightarrow> bsl \<notin> set lib \<Longrightarrow>
     parse_template (bsl # ''1from '' @ namespace @ ''.'' @ lib @ bsl # ''2'')
       = Some (Group_Ref 1 # map Literal (''from '' @ namespace @ ''.'' @ lib) @ [Group_Ref 2])"
  by (simp add: parse_template_literals isdigit_def)

lemma group_refs_ok_literals:
  "group_refs_ok n (map Literal cs @ t) = group_refs_ok n t"
  by (induction cs) simp_all

subsection \<open>Substitution as a scan of the text\<close>

definition line_start :: "string \<Rightarrow> bool" where
  "line_start pre = (pre = [] \<or> last pre = newline)"

definition tok :: "string \<Rightarrow> (string \<Rightarrow> bool) \<Rightarrow> string \<Rightarrow> bool" where
  "tok K C xs = (K \<noteq> [] \<and> take (length K) xs = K \<and> C (drop (length K) xs))"

fun scan :: "string \<Rightarrow> string \<Rightarrow> (string \<Rightarrow> bool) \<Rightarrow> bool \<Rightarrow> string \<Rightarrow> string" where
  "scan K X C lead [] = []"
| "scan K X C lead (c # cs) =
     (if lead \<and> tok K C (c # cs) then X @ scan K X C False (drop (length K - 1) cs)
      else c # scan K X C (c = newline \<or> (lead \<and> isspace c)) cs)"

lemma match_at_False:
  "match_at r s i False = (case rmatch r s i Map.empty of [] \<Rightarrow> None | p # ps \<Rightarrow> Some p)"
  by (cases "rmatch r s i Map.empty") (simp_all add: match_at_def)

lemma sub_loop_step:
  "sub_loop r t s i adv =
     (case match_at r s i adv of
        Some p \<Rightarrow> expand t s (snd p) @ sub_loop r t s (fst p) (fst p = i)
      | None \<Rightarrow> if i < length s then s ! i # sub_loop r t s (Suc i) False else [])"
proof (cases "match_at r s i adv")
  case (Some p)
  then show ?thesis
    by (simp add: sub_loop.simps [of r t s i adv] search_from.simps [of r s i adv] split: prod.splits)
next
  case None
  show ?thesis
  proof (cases "i < length s")
    case False
    with None show ?thesis
      by (simp add: sub_loop.simps [of r t s i adv] search_from.simps [of r s i adv])
  next
    case True
    have sf: "search_from r s i adv = search_from r s (Suc i) False"
      using None True by (simp add: search_from.simps [of r s i adv])
    show ?thesis
    proof (cases "search_from r s (Suc i) False")
      case n: None
      with sf None True show ?thesis
        by (simp add: sub_loop.simps [of r t s i adv] sub_loop.simps [of r t s "Suc i" False]
            Cons_nth_drop_Suc)
    next
      case (Some m)
      obtain b e g where m: "m = (b, e, g)" by (cases m)
      from search_from_bounds [of r s "Suc i" False b e g] Some m have "Suc i \<le> b" by simp
      then have bi: "b - i = Suc (b - Suc i)" by simp
      have "take (b - i) (drop i s) = s ! i # take (b - Suc i) (drop (Suc i) s)"
        unfolding bi using True by (simp add: Cons_nth_drop_Suc [symmetric])
      with sf None True Some m show ?thesis
        by (simp add: sub_loop.simps [of r t s i adv] sub_loop.simps [of r t s "Suc i" False])
    qed
  qed
qed


lemma sub_loop_copy:
  "(\<And>k. k < n \<Longrightarrow> match_at r s (i + k) False = None) \<Longrightarrow> i + n \<le> length s \<Longrightarrow>
     sub_loop r t s i False = take n (drop i s) @ sub_loop r t s (i + n) False"
proof (induction n arbitrary: i)
  case 0
  show ?case by simp
next
  case (Suc n)
  from Suc.prems(1) [of 0] have none: "match_at r s i False = None" by simp
  from Suc.prems(2) have lt: "i < length s" by simp
  have "\<And>k. k < n \<Longrightarrow> match_at r s (Suc i + k) False = None"
    using Suc.prems(1) by (metis Suc_less_eq add_Suc_shift)
  from Suc.IH [OF this] Suc.prems(2)
  have "sub_loop r t s (Suc i) False = take n (drop (Suc i) s) @ sub_loop r t s (Suc i + n) False"
    by simp
  with none lt show ?case
    by (simp add: sub_loop_step [of r t s i False] Cons_nth_drop_Suc [symmetric])
qed

lemma isspace_newline: "isspace newline"
  by (simp add: isspace_def)

lemma scan_spaces:
  "list_all isspace ws \<Longrightarrow> \<not> isspace (hd K) \<Longrightarrow>
     scan K X C True (ws @ ys) = ws @ scan K X C True ys"
proof (induction ws)
  case Nil
  show ?case by simp
next
  case (Cons c ws)
  then have c: "isspace c" and ws: "list_all isspace ws" by simp_all
  have "\<not> tok K C (c # ws @ ys)"
  proof
    assume "tok K C (c # ws @ ys)"
    then have "K \<noteq> []" and "take (length K) (c # ws @ ys) = K" by (simp_all add: tok_def)
    then have "hd K = c" by (cases K) auto
    with c Cons.prems(2) show False by simp
  qed
  with c Cons.IH [OF ws Cons.prems(2)] show ?case by simp
qed

lemma scan_copy:
  "newline \<notin> set ys \<Longrightarrow> scan K X C False (ys @ zs) = ys @ scan K X C False zs"
  by (induction ys) auto

lemma line_start_snoc: "line_start (pre @ [c]) = (c = newline)"
  by (simp add: line_start_def)

lemma sub_loop_scan:
  assumes K: "K \<noteq> []" "\<not> isspace (hd K)" "newline \<notin> set K"
    and none_mid: "\<And>pre xs. \<not> line_start pre \<Longrightarrow> match_at r (pre @ xs) (length pre) False = None"
    and none_tok: "\<And>pre xs. line_start pre \<Longrightarrow> \<not> tok K C (dropWhile isspace xs) \<Longrightarrow>
        match_at r (pre @ xs) (length pre) False = None"
    and some_tok: "\<And>pre xs. line_start pre \<Longrightarrow> tok K C (dropWhile isspace xs) \<Longrightarrow>
        \<exists>g m. match_at r (pre @ xs) (length pre) False
            = Some (length pre + length (takeWhile isspace xs) + length K + m, g)
          \<and> m \<le> length (drop (length K) (dropWhile isspace xs))
          \<and> newline \<notin> set (take (m - 1) (drop (length K) (dropWhile isspace xs)))
          \<and> expand t (pre @ xs) g
            = takeWhile isspace xs @ X @ take m (drop (length K) (dropWhile isspace xs))"
  shows "sub_loop r t (pre @ xs) (length pre) False = scan K X C (line_start pre) xs"
proof (induction "length xs" arbitrary: pre xs rule: less_induct)
  case less
  have step: "sub_loop r t (pre' @ c # cs) (length pre') False = c # scan K X C (c = newline) cs"
    if "length cs < length xs" and "match_at r (pre' @ c # cs) (length pre') False = None"
    for pre' c cs
  proof -
    from less [OF that(1), of "pre' @ [c]"]
    have "sub_loop r t (pre' @ c # cs) (Suc (length pre')) False = scan K X C (c = newline) cs"
      by (simp add: line_start_snoc)
    with that(2) show ?thesis
      by (simp add: sub_loop_step [of r t "pre' @ c # cs" "length pre'" False])
  qed
  show ?case
  proof (cases "line_start pre")
    case False
    show ?thesis
    proof (cases xs)
      case Nil
      with False none_mid [OF False, of "[]"] show ?thesis
        by (simp add: sub_loop_step [of r t pre "length pre" False])
    next
      case (Cons c cs)
      with step [of cs pre c] none_mid [OF False, of xs] False show ?thesis by simp
    qed
  next
    case True
    define ws where "ws = takeWhile isspace xs"
    define rest where "rest = dropWhile isspace xs"
    have xs: "xs = ws @ rest" by (simp add: ws_def rest_def)
    have ws: "list_all isspace ws" by (simp add: ws_def list_all_iff) (meson set_takeWhileD)
    have rest: "rest = [] \<or> \<not> isspace (hd rest)"
      unfolding rest_def by (metis hd_dropWhile)
    show ?thesis
    proof (cases "tok K C rest")
      case tk: True
      define tail where "tail = drop (length K) rest"
      from tk have Krest: "rest = K @ tail" unfolding tail_def tok_def
        by (metis append_take_drop_id)
      from some_tok [OF True, of xs] tk obtain g m where
        m: "match_at r (pre @ xs) (length pre) False = Some (length pre + length ws + length K + m, g)"
        and le: "m \<le> length tail"
        and nonl: "newline \<notin> set (take (m - 1) tail)"
        and ex: "expand t (pre @ xs) g = ws @ X @ take m tail"
        unfolding ws_def rest_def tail_def by blast
      let ?pre' = "pre @ ws @ K @ take m tail"
      have split: "pre @ xs = ?pre' @ drop m tail" by (simp add: xs Krest)
      have len: "length pre + length ws + length K + m = length ?pre'" using le by simp
      have shorter: "length (drop m tail) < length xs" using K(1) by (cases K) (simp_all add: xs Krest)
      have cont: "sub_loop r t (pre @ xs) (length pre + length ws + length K + m) False
          = scan K X C (line_start ?pre') (drop m tail)"
        unfolding split len by (rule less [OF shorter])
      have lhs: "sub_loop r t (pre @ xs) (length pre) False
          = ws @ X @ take m tail @ scan K X C (line_start ?pre') (drop m tail)"
        using m ex cont K(1) by (simp add: sub_loop_step [of r t "pre @ xs" "length pre" False])
      have tl: "scan K X C False tail = take m tail @ scan K X C (line_start ?pre') (drop m tail)"
      proof (cases m)
        case 0
        have "last (pre @ ws @ K) = last K" using K(1) by simp
        with K(1) K(3) have "\<not> line_start (pre @ ws @ K)"
          by (metis append_is_Nil_conv last_in_set line_start_def)
        with 0 show ?thesis by simp
      next
        case (Suc m')
        with le have lt: "m' < length tail" by simp
        have t1: "tail = take m' tail @ tail ! m' # drop m tail"
          using lt Suc by (metis id_take_nth_drop)
        have t2: "take m tail = take m' tail @ [tail ! m']"
          using lt Suc by (simp add: take_Suc_conv_app_nth)
        from nonl Suc have "newline \<notin> set (take m' tail)" by simp
        from scan_copy [OF this, of K X C "tail ! m' # drop m tail"] t1
        have "scan K X C False tail
            = take m' tail @ tail ! m' # scan K X C (tail ! m' = newline) (drop m tail)"
          by simp
        moreover have "line_start ?pre' = (tail ! m' = newline)"
          by (simp add: t2 line_start_def)
        ultimately show ?thesis by (simp add: t2)
      qed
      have "scan K X C True xs = ws @ scan K X C True rest"
        unfolding xs by (rule scan_spaces [OF ws K(2)])
      also have "scan K X C True rest = X @ scan K X C False tail"
      proof -
        obtain k K' where KK: "K = k # K'" using K(1) by (cases K) auto
        then have "rest = k # K' @ tail" using Krest by simp
        moreover have "drop (length K - 1) (K' @ tail) = tail" using KK by simp
        ultimately show ?thesis using tk by simp
      qed
      finally show ?thesis using lhs tl True by simp
    next
      case notk: False
      have none: "match_at r (pre @ ws @ rest) (length pre + k) False = None" if le: "k \<le> length ws" for k
      proof -
        have eq: "pre @ ws @ rest = (pre @ take k ws) @ (drop k ws @ rest)"
          by (metis append.assoc append_take_drop_id)
        have lk: "length pre + k = length (pre @ take k ws)" using le by simp
        have dw: "dropWhile isspace (drop k ws @ rest) = rest"
        proof -
          have "list_all isspace (drop k ws)" using ws
            by (metis append_take_drop_id list_all_append)
          then have "dropWhile isspace (drop k ws @ rest) = dropWhile isspace rest"
            by (simp add: dropWhile_append list_all_iff)
          also have "\<dots> = rest" using rest by (cases rest) auto
          finally show ?thesis .
        qed
        show ?thesis
        proof (cases "line_start (pre @ take k ws)")
          case ls: True
          from none_tok [OF ls, of "drop k ws @ rest"] notk dw show ?thesis
            unfolding eq lk by simp
        next
          case nls: False
          from none_mid [OF nls, of "drop k ws @ rest"] show ?thesis
            unfolding eq lk by simp
        qed
      qed
      have copy: "sub_loop r t (pre @ xs) (length pre) False
          = ws @ sub_loop r t (pre @ xs) (length pre + length ws) False"
        using sub_loop_copy [of "length ws" r "pre @ ws @ rest" "length pre" t] none
        by (simp add: xs)
      have sc: "scan K X C True xs = ws @ scan K X C True rest"
        unfolding xs by (rule scan_spaces [OF ws K(2)])
      show ?thesis
      proof (cases rest)
        case Nil
        with none [of "length ws"] have "sub_loop r t (pre @ xs) (length pre + length ws) False = []"
          by (simp add: xs sub_loop_step [of r t "pre @ ws" "length pre + length ws" False])
        with copy sc Nil True show ?thesis by simp
      next
        case (Cons c cs)
        with rest have c: "\<not> isspace c" by simp
        with isspace_newline have cn: "c \<noteq> newline" by auto
        have "length cs < length xs" by (simp add: xs Cons)
        from step [OF this, of "pre @ ws" c] none [of "length ws"] cn
        have "sub_loop r t (pre @ xs) (length pre + length ws) False = c # scan K X C False cs"
          by (simp add: xs Cons)
        moreover from notk Cons c cn have "scan K X C True rest = c # scan K X C False cs"
          by simp
        ultimately show ?thesis using copy sc True by simp
      qed
    qed
  qed
qed

subsection \<open>Matching runs of characters\<close>

lemma take_drop_Cons:
  "take (Suc n) (drop i s) = c # cs \<longleftrightarrow> i < length s \<and> s ! i = c \<and> take n (drop (Suc i) s) = cs"
proof (cases "i < length s")
  case True
  then show ?thesis by (simp add: Cons_nth_drop_Suc [symmetric])
next
  case False
  then show ?thesis by simp
qed

lemma rmatch_lits:
  "rmatch (seq (map Lit cs @ rs)) s i g =
     (if take (length cs) (drop i s) = cs then rmatch (seq rs) s (i + length cs) g else [])"
proof (induction cs arbitrary: i)
  case Nil
  show ?case by simp
next
  case (Cons c cs)
  show ?case
    using Cons.IH [of "Suc i"] by (auto simp: take_drop_Cons)
qed

text \<open>A repeated character class: all the ways to stop, the longest first.\<close>

lemma rmatch_star_class:
  assumes cls: "\<And>i g. rmatch c s i g = (if i < length s \<and> P (s ! i) then [(Suc i, g)] else [])"
  shows "rmatch (Star c) s i g
    = map (\<lambda>j. (j, g)) (rev [i..<Suc (i + length (takeWhile P (drop i s)))])"
proof (induction "length s - i" arbitrary: i rule: less_induct)
  case less
  show ?case
  proof (cases "i < length s \<and> P (s ! i)")
    case False
    then have "takeWhile P (drop i s) = []"
      by (cases "i < length s") (simp_all add: Cons_nth_drop_Suc [symmetric])
    moreover from False have "rmatch c s i g = []" by (simp add: cls)
    ultimately show ?thesis by (simp add: rmatch.simps(12) [of c s i g])
  next
    case True
    then have lt: "i < length s" and p: "P (s ! i)" by simp_all
    have tw: "takeWhile P (drop i s) = s ! i # takeWhile P (drop (Suc i) s)"
      using lt p by (simp add: Cons_nth_drop_Suc [symmetric])
    from lt have "length s - Suc i < length s - i" by simp
    from less [OF this] have IH: "rmatch (Star c) s (Suc i) g
      = map (\<lambda>j. (j, g)) (rev [Suc i..<Suc (Suc i + length (takeWhile P (drop (Suc i) s)))])" .
    define m where "m = Suc (Suc i + length (takeWhile P (drop (Suc i) s)))"
    have m: "Suc (i + length (takeWhile P (drop i s))) = m" by (simp add: tw m_def)
    have "i < m" by (simp add: m_def)
    then have up: "[i..<m] = i # [Suc i..<m]" by (rule upt_conv_Cons)
    have "rmatch (Star c) s i g = rmatch (Star c) s (Suc i) g @ [(i, g)]"
      using True by (simp add: rmatch.simps(12) [of c s i g] cls)
    also have "\<dots> = map (\<lambda>j. (j, g)) (rev [i..<m])"
      unfolding IH up m_def [symmetric] by simp
    finally show ?thesis unfolding m .
  qed
qed

lemma rmatch_plus_class:
  assumes cls: "\<And>i g. rmatch c s i g = (if i < length s \<and> P (s ! i) then [(Suc i, g)] else [])"
  shows "rmatch (Plus c) s i g
    = map (\<lambda>j. (j, g)) (rev [Suc i..<Suc (i + length (takeWhile P (drop i s)))])"
proof (cases "i < length s \<and> P (s ! i)")
  case False
  then have "takeWhile P (drop i s) = []"
    by (cases "i < length s") (simp_all add: Cons_nth_drop_Suc [symmetric])
  moreover from False have "rmatch c s i g = []" by (simp add: cls)
  ultimately show ?thesis by simp
next
  case True
  then have tw: "takeWhile P (drop i s) = s ! i # takeWhile P (drop (Suc i) s)"
    by (simp add: Cons_nth_drop_Suc [symmetric])
  with True show ?thesis by (simp add: cls rmatch_star_class [of c s P, OF cls])
qed

lemma rmatch_Space: "rmatch Space s i g = (if i < length s \<and> isspace (s ! i) then [(Suc i, g)] else [])"
  by simp

lemma rmatch_NonSpace:
  "rmatch NonSpace s i g = (if i < length s \<and> (\<lambda>c. \<not> isspace c) (s ! i) then [(Suc i, g)] else [])"
  by simp

lemmas star_space = rmatch_star_class [of Space _ isspace, OF rmatch_Space]
lemmas plus_space = rmatch_plus_class [of Space _ isspace, OF rmatch_Space]
lemmas plus_nonspace = rmatch_plus_class [of NonSpace _ "\<lambda>c. \<not> isspace c", OF rmatch_NonSpace]

text \<open>Leading white space followed by something that cannot start at white space.\<close>

lemma concat_map_rev_upt_last:
  assumes "\<And>j. i \<le> j \<Longrightarrow> j < m \<Longrightarrow> F j = []"
  shows "concat (map F (rev [i..<Suc m])) = (if i \<le> m then F m else [])"
proof (cases "i \<le> m")
  case True
  have "concat (map F (rev [i..<m])) = []"
    using assms by (induction m) auto
  with True show ?thesis by simp
next
  case False
  then show ?thesis by simp
qed

lemma space_run_nth:
  "i \<le> j \<Longrightarrow> j < i + length (takeWhile isspace (drop i s)) \<Longrightarrow> j < length s \<and> isspace (s ! j)"
proof -
  assume a: "i \<le> j" "j < i + length (takeWhile isspace (drop i s))"
  let ?ws = "takeWhile isspace (drop i s)"
  from a have k: "j - i < length ?ws" by simp
  then have "?ws ! (j - i) \<in> set ?ws" by simp
  then have sp: "isspace (?ws ! (j - i))" by (meson set_takeWhileD)
  have "length ?ws \<le> length (drop i s)" by (rule length_takeWhile_le)
  with k have lt: "j - i < length (drop i s)" by simp
  with a have jl: "j < length s" by simp
  have "?ws ! (j - i) = drop i s ! (j - i)" using k by (rule takeWhile_nth)
  also have "\<dots> = s ! j" using a jl by simp
  finally show ?thesis using sp jl by simp
qed

lemma lits_fail_at_space:
  assumes "K \<noteq> []" "\<not> isspace (hd K)" "j < length s" "isspace (s ! j)"
  shows "rmatch (seq (map Lit K @ rs)) s j g = []"
proof -
  obtain k K' where K: "K = k # K'" using assms(1) by (cases K) auto
  with assms have "take (length K) (drop j s) \<noteq> K"
    by (auto simp: take_drop_Cons)
  then show ?thesis by (simp add: rmatch_lits)
qed

lemma rmatch_indent_lits:
  assumes "K \<noteq> []" "\<not> isspace (hd K)"
  shows "rmatch (Seq (Group 1 (Seq (Star Space) Empty)) (seq (map Lit K @ rs))) s i g
    = (let q = i + length (takeWhile isspace (drop i s)) in
       if take (length K) (drop q s) = K
       then rmatch (seq rs) s (q + length K) (g(1 \<mapsto> (i, q))) else [])"
proof -
  let ?n = "length (takeWhile isspace (drop i s))"
  let ?F = "\<lambda>j. rmatch (seq (map Lit K @ rs)) s j (g(1 \<mapsto> (i, j)))"
  have "rmatch (Seq (Group 1 (Seq (Star Space) Empty)) (seq (map Lit K @ rs))) s i g
      = concat (map ?F (rev [i..<Suc (i + ?n)]))"
    by (simp add: star_space o_def del: upt_Suc)
  also have "\<dots> = ?F (i + ?n)"
    using concat_map_rev_upt_last [of i "i + ?n" ?F]
      lits_fail_at_space [OF assms] space_run_nth [of i _ s]
    by simp
  finally show ?thesis by (simp add: rmatch_lits Let_def)
qed

lemma rmatch_spaces_then:
  assumes "\<And>j g'. j < length s \<Longrightarrow> isspace (s ! j) \<Longrightarrow> rmatch body s j g' = []"
  shows "rmatch (Seq (Star Space) body) s i g
    = rmatch body s (i + length (takeWhile isspace (drop i s))) g"
proof -
  let ?n = "length (takeWhile isspace (drop i s))"
  let ?F = "\<lambda>j. rmatch body s j g"
  have "rmatch (Seq (Star Space) body) s i g = concat (map ?F (rev [i..<Suc (i + ?n)]))"
    by (simp add: star_space o_def del: upt_Suc)
  also have "\<dots> = ?F (i + ?n)"
    using concat_map_rev_upt_last [of i "i + ?n" ?F] assms space_run_nth [of i _ s]
    by simp
  finally show ?thesis .
qed

subsection \<open>Patterns that start with the indentation\<close>

definition indent_regex :: "string \<Rightarrow> regex list \<Rightarrow> regex" where
  "indent_regex K rs =
     seq ([At_Beginning_Line, Group 1 (Seq (Star Space) Empty)] @ map Lit K @ rs)"

lemma bol_line_start:
  "(length pre = 0 \<or> (pre @ xs) ! (length pre - 1) = newline) = line_start pre"
proof (cases pre rule: rev_cases)
  case Nil
  then show ?thesis by (simp add: line_start_def)
next
  case (snoc pre' c)
  then show ?thesis by (simp add: line_start_def nth_append)
qed

lemma drop_space_run:
  "drop (length pre + length (takeWhile isspace xs)) (pre @ xs) = dropWhile isspace xs"
  by (simp add: dropWhile_eq_drop)

lemma match_at_indent:
  assumes "K \<noteq> []" "\<not> isspace (hd K)"
  shows "match_at (indent_regex K rs) (pre @ xs) (length pre) False =
     (if line_start pre \<and> take (length K) (dropWhile isspace xs) = K
      then (case rmatch (seq rs) (pre @ xs)
                   (length pre + length (takeWhile isspace xs) + length K)
                   [1 \<mapsto> (length pre, length pre + length (takeWhile isspace xs))] of
              [] \<Rightarrow> None | p # ps \<Rightarrow> Some p)
      else None)"
proof -
  have "rmatch (indent_regex K rs) (pre @ xs) (length pre) Map.empty =
     (if line_start pre \<and> take (length K) (dropWhile isspace xs) = K
      then rmatch (seq rs) (pre @ xs)
                   (length pre + length (takeWhile isspace xs) + length K)
                   [1 \<mapsto> (length pre, length pre + length (takeWhile isspace xs))]
      else [])"
  proof -
    have sh: "indent_regex K rs
        = Seq At_Beginning_Line (Seq (Group 1 (Seq (Star Space) Empty)) (seq (map Lit K @ rs)))"
      by (simp add: indent_regex_def)
    have bol: "rmatch (Seq At_Beginning_Line R) s i g
        = (if i = 0 \<or> s ! (i - 1) = newline then rmatch R s i g else [])" for R s i g
      by simp
    show ?thesis
      unfolding sh bol rmatch_indent_lits [OF assms] Let_def
      using bol_line_start [of pre xs] by (simp add: dropWhile_eq_drop)
  qed
  then show ?thesis by (simp add: match_at_False)
qed

lemma expand_literals: "expand (map Literal X @ t) s g = X @ expand t s g"
  by (induction X) simp_all

lemma sub_loop_indent_scan:
  assumes K: "K \<noteq> []" "\<not> isspace (hd K)" "newline \<notin> set K"
    and tail_none: "\<And>s j g. \<not> C (drop j s) \<Longrightarrow> rmatch (seq rs) s j g = []"
    and tail_some: "\<And>s j g. C (drop j s) \<Longrightarrow> j \<le> length s \<Longrightarrow>
        \<exists>m g' ps. rmatch (seq rs) s j g = (j + m, g') # ps \<and> g' 1 = g 1 \<and> g' 2 = Some (j, j + m)
          \<and> m \<le> length (drop j s) \<and> newline \<notin> set (take (m - 1) (drop j s))"
  shows "sub_loop (indent_regex K rs) (Group_Ref 1 # map Literal X @ [Group_Ref 2]) text 0 False
    = scan K X C True text"
proof -
  let ?r = "indent_regex K rs"
  let ?t = "Group_Ref 1 # map Literal X @ [Group_Ref 2]"
  have none_mid: "match_at ?r (pre @ xs) (length pre) False = None" if "\<not> line_start pre" for pre xs
    using that by (simp add: match_at_indent [OF K(1,2)])
  have none_tok: "match_at ?r (pre @ xs) (length pre) False = None"
    if "line_start pre" "\<not> tok K C (dropWhile isspace xs)" for pre xs
  proof (cases "take (length K) (dropWhile isspace xs) = K")
    case False
    then show ?thesis by (simp add: match_at_indent [OF K(1,2)])
  next
    case True
    let ?j = "length pre + length (takeWhile isspace xs) + length K"
    have "drop ?j (pre @ xs) = drop (length K) (dropWhile isspace xs)"
      by (simp add: dropWhile_eq_drop add.commute)
    with that(2) True K(1) have "\<not> C (drop ?j (pre @ xs))" by (simp add: tok_def)
    from tail_none [OF this] show ?thesis by (simp add: match_at_indent [OF K(1,2)])
  qed
  have some_tok: "\<exists>g m. match_at ?r (pre @ xs) (length pre) False
            = Some (length pre + length (takeWhile isspace xs) + length K + m, g)
          \<and> m \<le> length (drop (length K) (dropWhile isspace xs))
          \<and> newline \<notin> set (take (m - 1) (drop (length K) (dropWhile isspace xs)))
          \<and> expand ?t (pre @ xs) g
            = takeWhile isspace xs @ X @ take m (drop (length K) (dropWhile isspace xs))"
    if "line_start pre" "tok K C (dropWhile isspace xs)" for pre xs
  proof -
    let ?ws = "takeWhile isspace xs"
    let ?rest = "dropWhile isspace xs"
    let ?q = "length pre + length ?ws"
    let ?j = "?q + length K"
    let ?g = "[(1::nat) \<mapsto> (length pre, ?q)]"
    from that(2) have tk: "take (length K) ?rest = K" and C: "C (drop (length K) ?rest)"
      by (simp_all add: tok_def)
    have dj: "drop ?j (pre @ xs) = drop (length K) ?rest"
      by (simp add: dropWhile_eq_drop add.commute)
    have "length K \<le> length ?rest" using arg_cong [OF tk, of length] by simp
    moreover have "length xs = length ?ws + length ?rest"
      by (metis length_append takeWhile_dropWhile_id)
    ultimately have jl: "?j \<le> length (pre @ xs)" by simp
    from C dj have "C (drop ?j (pre @ xs))" by simp
    from tail_some [where s = "pre @ xs" and j = ?j and g = ?g, OF this jl]
    obtain m g' ps where all: "rmatch (seq rs) (pre @ xs) ?j ?g = (?j + m, g') # ps \<and> g' 1 = ?g 1
        \<and> g' 2 = Some (?j, ?j + m) \<and> m \<le> length (drop ?j (pre @ xs))
        \<and> newline \<notin> set (take (m - 1) (drop ?j (pre @ xs)))"
      by blast
    then have r: "rmatch (seq rs) (pre @ xs) ?j ?g = (?j + m, g') # ps"
      and g1': "g' 1 = ?g 1" and g2: "g' 2 = Some (?j, ?j + m)"
      and le': "m \<le> length (drop ?j (pre @ xs))"
      and nonl': "newline \<notin> set (take (m - 1) (drop ?j (pre @ xs)))"
      by simp_all
    from g1' have g1: "g' 1 = Some (length pre, ?q)" by simp
    from le' have le: "m \<le> length (drop (length K) ?rest)" unfolding dj .
    from nonl' have nonl: "newline \<notin> set (take (m - 1) (drop (length K) ?rest))" unfolding dj .
    have m: "match_at ?r (pre @ xs) (length pre) False = Some (?j + m, g')"
      using that(1) tk r by (simp add: match_at_indent [OF K(1,2)])
    have e1: "take (?q - length pre) (drop (length pre) (pre @ xs)) = ?ws"
      by (simp add: takeWhile_eq_take [symmetric])
    have "expand ?t (pre @ xs) g' = ?ws @ X @ take m (drop (length K) ?rest)"
      using g1 g2 e1 dj by (simp add: expand_literals)
    with m le nonl show ?thesis by blast
  qed
  have "sub_loop ?r ?t ([] @ text) (length ([] :: string)) False = scan K X C (line_start []) text"
    by (rule sub_loop_scan [OF K none_mid none_tok some_tok])
  then show ?thesis by (simp add: line_start_def)
qed

subsection \<open>The plain and the from substitution\<close>

definition boundary :: "string \<Rightarrow> bool" where
  "boundary xs = (xs = [] \<or> isspace (hd xs))"

definition dot_or_space :: "string \<Rightarrow> bool" where
  "dot_or_space xs = (xs \<noteq> [] \<and> (hd xs = CHR ''.'' \<or> isspace (hd xs)))"

lemma drop_Cons_nth: "drop j s = c # r \<Longrightarrow> j < length s \<and> s ! j = c"
  by (metis drop_all hd_drop_conv_nth list.distinct(1) list.sel(1) not_le_imp_less)

lemma plain_tail:
  "rmatch (seq [Group 2 (Alt (Seq Space Empty) (Seq At_End_Line Empty))]) s j g =
     (if j < length s \<and> isspace (s ! j) then [(Suc j, g(2 \<mapsto> (j, Suc j)))] else [])
     @ (if j = length s \<or> s ! j = newline then [(j, g(2 \<mapsto> (j, j)))] else [])"
  by simp

lemma plain_tail_none:
  "\<not> boundary (drop j s) \<Longrightarrow>
     rmatch (seq [Group 2 (Alt (Seq Space Empty) (Seq At_End_Line Empty))]) s j g = []"
proof -
  assume a: "\<not> boundary (drop j s)"
  then obtain c r where d: "drop j s = c # r" and c: "\<not> isspace c"
    by (cases "drop j s") (auto simp: boundary_def)
  from drop_Cons_nth [OF d] c isspace_newline have "j < length s" "\<not> isspace (s ! j)" "s ! j \<noteq> newline"
    by auto
  then show ?thesis unfolding plain_tail by simp
qed

lemma plain_tail_some:
  assumes "boundary (drop j s)" "j \<le> length s"
  shows "\<exists>m g' ps. rmatch (seq [Group 2 (Alt (Seq Space Empty) (Seq At_End_Line Empty))]) s j g
        = (j + m, g') # ps \<and> g' 1 = g 1 \<and> g' 2 = Some (j, j + m)
      \<and> m \<le> length (drop j s) \<and> newline \<notin> set (take (m - 1) (drop j s))"
proof (cases "drop j s")
  case Nil
  with assms(2) have j: "j = length s" by simp
  show ?thesis
    unfolding plain_tail
    by (rule exI [of _ 0], rule exI [of _ "g(2 \<mapsto> (j, j))"], rule exI [of _ "[]"]) (simp add: j)
next
  case (Cons c r)
  with assms(1) have c: "isspace c" by (simp add: boundary_def)
  from drop_Cons_nth [OF Cons] c have jj: "j < length s" "isspace (s ! j)" by simp_all
  show ?thesis
    unfolding plain_tail
    by (rule exI [of _ 1], rule exI [of _ "g(2 \<mapsto> (j, Suc j))"],
        rule exI [of _ "if s ! j = newline then [(j, g(2 \<mapsto> (j, j)))] else []"])
      (use jj Cons in simp)
qed

lemma from_tail:
  "rmatch (seq [Group 2 (Alt (Seq (Lit CHR ''.'') Empty) (Seq Space Empty))]) s j g =
     (if j < length s \<and> s ! j = CHR ''.'' then [(Suc j, g(2 \<mapsto> (j, Suc j)))] else [])
     @ (if j < length s \<and> isspace (s ! j) then [(Suc j, g(2 \<mapsto> (j, Suc j)))] else [])"
  by simp

lemma from_tail_none:
  "\<not> dot_or_space (drop j s) \<Longrightarrow>
     rmatch (seq [Group 2 (Alt (Seq (Lit CHR ''.'') Empty) (Seq Space Empty))]) s j g = []"
proof (cases "drop j s")
  case Nil
  then show ?thesis unfolding from_tail by simp
next
  case (Cons c r)
  assume "\<not> dot_or_space (drop j s)"
  with Cons have "c \<noteq> CHR ''.''" "\<not> isspace c" by (simp_all add: dot_or_space_def)
  with drop_Cons_nth [OF Cons] show ?thesis unfolding from_tail by simp
qed

lemma from_tail_some:
  assumes "dot_or_space (drop j s)" "j \<le> length s"
  shows "\<exists>m g' ps. rmatch (seq [Group 2 (Alt (Seq (Lit CHR ''.'') Empty) (Seq Space Empty))]) s j g
        = (j + m, g') # ps \<and> g' 1 = g 1 \<and> g' 2 = Some (j, j + m)
      \<and> m \<le> length (drop j s) \<and> newline \<notin> set (take (m - 1) (drop j s))"
proof -
  from assms(1) obtain c r where d: "drop j s = c # r" and c: "c = CHR ''.'' \<or> isspace c"
    by (cases "drop j s") (auto simp: dot_or_space_def)
  from drop_Cons_nth [OF d] c have jj: "j < length s" "s ! j = CHR ''.'' \<or> isspace (s ! j)"
    by simp_all
  show ?thesis
    unfolding from_tail
    by (rule exI [of _ 1], rule exI [of _ "g(2 \<mapsto> (j, Suc j))"],
        rule exI [of _ "if s ! j = CHR ''.'' \<and> isspace (s ! j) then [(Suc j, g(2 \<mapsto> (j, Suc j)))] else []"])
      (use jj d in auto)
qed

lemma group_refs_ok_template:
  "group_refs_ok 2 (Group_Ref 1 # map Literal X @ [Group_Ref 2])"
  by (simp add: group_refs_ok_literals)

lemma ident_keyword:
  assumes "list_all isident lib"
  shows "newline \<notin> set (kw @ lib) \<longleftrightarrow> newline \<notin> set kw"
  using assms isident_not_space(2) by (auto simp: list_all_iff)

theorem rewrite_plain_import_scan:
  assumes "list_all isident lib" "bsl \<notin> set namespace"
  shows "rewrite_plain_import namespace lib t =
     Inr (scan (''import '' @ lib) (''from '' @ namespace @ '' import '' @ lib) boundary True t)"
proof -
  have K: "''import '' @ lib \<noteq> []" "\<not> isspace (hd (''import '' @ lib))"
    "newline \<notin> set (''import '' @ lib)"
    using ident_keyword [OF assms(1), of "''import ''"] by (simp_all add: isspace_def)
  have r: "plain_import_regex lib
      = indent_regex (''import '' @ lib) [Group 2 (Alt (Seq Space Empty) (Seq At_End_Line Empty))]"
    by (simp add: plain_import_regex_def indent_regex_def)
  have "sub_loop (plain_import_regex lib)
      (Group_Ref 1 # map Literal (''from '' @ namespace @ '' import '' @ lib) @ [Group_Ref 2]) t 0 False
    = scan (''import '' @ lib) (''from '' @ namespace @ '' import '' @ lib) boundary True t"
    unfolding r by (rule sub_loop_indent_scan [OF K plain_tail_none plain_tail_some])
  then show ?thesis
    unfolding rewrite_plain_import_def re_sub_def
      compile_plain_import [OF assms(1)]
      template_plain_import [OF assms(2) no_bsl_ident [OF assms(1)]]
    by (simp only: option.case prod.case group_refs_ok_template if_True)
qed

theorem rewrite_from_import_scan:
  assumes "list_all isident lib" "bsl \<notin> set namespace"
  shows "rewrite_from_import namespace lib t =
     Inr (scan (''from '' @ lib) (''from '' @ namespace @ ''.'' @ lib) dot_or_space True t)"
proof -
  have K: "''from '' @ lib \<noteq> []" "\<not> isspace (hd (''from '' @ lib))"
    "newline \<notin> set (''from '' @ lib)"
    using ident_keyword [OF assms(1), of "''from ''"] by (simp_all add: isspace_def)
  have r: "from_import_regex lib
      = indent_regex (''from '' @ lib) [Group 2 (Alt (Seq (Lit CHR ''.'') Empty) (Seq Space Empty))]"
    by (simp add: from_import_regex_def indent_regex_def)
  have "sub_loop (from_import_regex lib)
      (Group_Ref 1 # map Literal (''from '' @ namespace @ ''.'' @ lib) @ [Group_Ref 2]) t 0 False
    = scan (''from '' @ lib) (''from '' @ namespace @ ''.'' @ lib) dot_or_space True t"
    unfolding r by (rule sub_loop_indent_scan [OF K from_tail_none from_tail_some])
  then show ?thesis
    unfolding rewrite_from_import_def re_sub_def
      compile_from_import [OF assms(1)]
      template_from_import [OF assms(2) no_bsl_ident [OF assms(1)]]
    by (simp only: option.case prod.case group_refs_ok_template if_True)
qed

subsection \<open>The aliased substitution\<close>

definition alias_follows :: "string \<Rightarrow> bool" where
  "alias_follows xs =
     (case xs of
        [] \<Rightarrow> False
      | c # ys \<Rightarrow>
          c = CHR ''.''
          \<and> takeWhile (\<lambda>c. \<not> isspace c) ys \<noteq> []
          \<and> takeWhile isspace (dropWhile (\<lambda>c. \<not> isspace c) ys) \<noteq> []
          \<and> take 2 (dropWhile isspace (dropWhile (\<lambda>c. \<not> isspace c) ys)) = ''as'')"

lemma run_nth:
  "i \<le> j \<Longrightarrow> j < i + length (takeWhile P (drop i s)) \<Longrightarrow> j < length s \<and> P (s ! j)"
proof -
  assume a: "i \<le> j" "j < i + length (takeWhile P (drop i s))"
  let ?ws = "takeWhile P (drop i s)"
  from a have k: "j - i < length ?ws" by simp
  then have "?ws ! (j - i) \<in> set ?ws" by simp
  then have sp: "P (?ws ! (j - i))" by (meson set_takeWhileD)
  have "length ?ws \<le> length (drop i s)" by (rule length_takeWhile_le)
  with k have lt: "j - i < length (drop i s)" by simp
  with a have jl: "j < length s" by simp
  have "?ws ! (j - i) = drop i s ! (j - i)" using k by (rule takeWhile_nth)
  also have "\<dots> = s ! j" using a jl by simp
  finally show ?thesis using sp jl by simp
qed

lemma run_empty: "i < length s \<Longrightarrow> \<not> P (s ! i) \<Longrightarrow> takeWhile P (drop i s) = []"
  by (simp add: Cons_nth_drop_Suc [symmetric])

lemma concat_map_rev_upt_from:
  assumes "\<And>j. i \<le> j \<Longrightarrow> j < m \<Longrightarrow> F j = []"
  shows "concat (map F (rev [i..<Suc m])) = (if i \<le> m then F m else [])"
  using assms by (rule concat_map_rev_upt_last)

abbreviation as_lookahead :: regex where
  "as_lookahead \<equiv> Look (Seq (Plus Space) (Seq (Lit CHR ''a'') (Seq (Lit CHR ''s'') Empty)))"

abbreviation dotted_suffix :: regex where
  "dotted_suffix \<equiv> Group 2 (Seq (Lit CHR ''.'') (Seq (Plus NonSpace) Empty))"

lemma rmatch_Seq_Empty: "rmatch (Seq r Empty) s i g = rmatch r s i g"
  by simp

lemma rmatch_Lit_Seq:
  "rmatch (Seq (Lit c) r) s i g = (if i < length s \<and> s ! i = c then rmatch r s (Suc i) g else [])"
  by auto

lemma rmatch_Seq_map:
  "rmatch r1 s i g = map (\<lambda>e. (e, h e)) es \<Longrightarrow>
     rmatch (Seq r1 r2) s i g = concat (map (\<lambda>e. rmatch r2 s e (h e)) es)"
  by (simp add: o_def)

lemma rmatch_as:
  "rmatch (Seq (Lit CHR ''a'') (Seq (Lit CHR ''s'') Empty)) s e g
     = (if take 2 (drop e s) = ''as'' then [(e + 2, g)] else [])"
proof -
  have "rmatch (Seq (Lit CHR ''a'') (Seq (Lit CHR ''s'') Empty)) s e g
      = rmatch (seq (map Lit ''as'' @ [])) s e g" by simp
  also have "\<dots> = (if take (length ''as'') (drop e s) = ''as''
      then rmatch (seq []) s (e + length ''as'') g else [])" by (rule rmatch_lits)
  also have "\<dots> = (if take 2 (drop e s) = ''as'' then [(e + 2, g)] else [])"
    by (simp add: numeral_2_eq_2)
  finally show ?thesis .
qed

lemma rmatch_spaces_as:
  "rmatch (Seq (Plus Space) (Seq (Lit CHR ''a'') (Seq (Lit CHR ''s'') Empty))) s e g
     = (let n2 = length (takeWhile isspace (drop e s)) in
        if 0 < n2 \<and> take 2 (drop (e + n2) s) = ''as'' then [(e + n2 + 2, g)] else [])"
proof -
  let ?n2 = "length (takeWhile isspace (drop e s))"
  let ?H = "\<lambda>e'. rmatch (Seq (Lit CHR ''a'') (Seq (Lit CHR ''s'') Empty)) s e' g"
  have fail: "?H e' = []" if "Suc e \<le> e'" "e' < e + ?n2" for e'
  proof -
    from that run_nth [of e e' isspace s] have "e' < length s" "isspace (s ! e')" by simp_all
    then have "take 2 (drop e' s) \<noteq> ''as''"
      by (auto simp: numeral_2_eq_2 take_drop_Cons isspace_def)
    then show ?thesis unfolding rmatch_as by simp
  qed
  have "rmatch (Seq (Plus Space) (Seq (Lit CHR ''a'') (Seq (Lit CHR ''s'') Empty))) s e g
      = concat (map ?H (rev [Suc e..<Suc (e + ?n2)]))"
    by (rule rmatch_Seq_map [OF plus_space])
  also have "\<dots> = (if Suc e \<le> e + ?n2 then ?H (e + ?n2) else [])"
    by (rule concat_map_rev_upt_last) (rule fail)
  finally have f: "rmatch (Seq (Plus Space) (Seq (Lit CHR ''a'') (Seq (Lit CHR ''s'') Empty))) s e g
      = (if Suc e \<le> e + ?n2 then ?H (e + ?n2) else [])" .
  show ?thesis unfolding f rmatch_as by (simp add: Let_def Suc_le_eq)
qed

lemma rmatch_lookahead:
  "rmatch (seq [as_lookahead]) s e g
     = (let n2 = length (takeWhile isspace (drop e s)) in
        if 0 < n2 \<and> take 2 (drop (e + n2) s) = ''as'' then [(e, g)] else [])"
proof -
  have "rmatch (seq [as_lookahead]) s e g = rmatch as_lookahead s e g"
    unfolding seq.simps by (rule rmatch_Seq_Empty)
  also have "\<dots>
      = (case rmatch (Seq (Plus Space) (Seq (Lit CHR ''a'') (Seq (Lit CHR ''s'') Empty))) s e g of
           [] \<Rightarrow> [] | p # ps \<Rightarrow> [(e, snd p)])"
    by (rule rmatch.simps)
  finally show ?thesis unfolding rmatch_spaces_as by (simp add: Let_def)
qed

lemma rmatch_dotted_suffix:
  "rmatch dotted_suffix s j g
     = map (\<lambda>e. (e, g(2 \<mapsto> (j, e))))
         (if j < length s \<and> s ! j = CHR ''.''
          then rev [Suc (Suc j)..<Suc (Suc j + length (takeWhile (\<lambda>c. \<not> isspace c) (drop (Suc j) s)))]
          else [])"
proof -
  have "rmatch (Seq (Lit CHR ''.'') (Seq (Plus NonSpace) Empty)) s j g
      = (if j < length s \<and> s ! j = CHR ''.''
         then map (\<lambda>e. (e, g))
           (rev [Suc (Suc j)..<Suc (Suc j + length (takeWhile (\<lambda>c. \<not> isspace c) (drop (Suc j) s)))])
         else [])"
    unfolding rmatch_Lit_Seq rmatch_Seq_Empty plus_nonspace ..
  then have "rmatch dotted_suffix s j g
      = map (\<lambda>p. (fst p, (snd p)(2 \<mapsto> (j, fst p))))
        (if j < length s \<and> s ! j = CHR ''.''
         then map (\<lambda>e. (e, g))
           (rev [Suc (Suc j)..<Suc (Suc j + length (takeWhile (\<lambda>c. \<not> isspace c) (drop (Suc j) s)))])
         else [])"
    by (simp only: rmatch.simps(15))
  then show ?thesis by (simp add: o_def del: upt_Suc)
qed

lemma aliased_tail:
  "rmatch (seq [dotted_suffix, as_lookahead]) s j g
     = (let n = length (takeWhile (\<lambda>c. \<not> isspace c) (drop (Suc j) s));
            e = Suc j + n;
            n2 = length (takeWhile isspace (drop e s)) in
        if j < length s \<and> s ! j = CHR ''.'' \<and> 0 < n \<and> 0 < n2 \<and> take 2 (drop (e + n2) s) = ''as''
        then [(e, g(2 \<mapsto> (j, e)))] else [])"
proof -
  let ?n = "length (takeWhile (\<lambda>c. \<not> isspace c) (drop (Suc j) s))"
  let ?F = "\<lambda>e. rmatch (seq [as_lookahead]) s e (g(2 \<mapsto> (j, e)))"
  have seq2: "seq [dotted_suffix, as_lookahead] = Seq dotted_suffix (seq [as_lookahead])"
    by simp
  have fail: "?F e = []" if "Suc (Suc j) \<le> e" "e < Suc j + ?n" for e
  proof -
    from that run_nth [of "Suc j" e "\<lambda>c. \<not> isspace c" s] have "e < length s" "\<not> isspace (s ! e)"
      by simp_all
    then have "takeWhile isspace (drop e s) = []" by (rule run_empty)
    then show ?thesis unfolding rmatch_lookahead by simp
  qed
  have last: "concat (map ?F (rev [Suc (Suc j)..<Suc (Suc j + ?n)]))
      = (if Suc (Suc j) \<le> Suc j + ?n then ?F (Suc j + ?n) else [])"
    by (rule concat_map_rev_upt_last) (rule fail)
  have "rmatch (seq [dotted_suffix, as_lookahead]) s j g
      = concat (map ?F (if j < length s \<and> s ! j = CHR ''.''
          then rev [Suc (Suc j)..<Suc (Suc j + ?n)] else []))"
    unfolding seq2 by (rule rmatch_Seq_map [OF rmatch_dotted_suffix])
  also have "\<dots> = (if j < length s \<and> s ! j = CHR ''.'' \<and> 0 < ?n then ?F (Suc j + ?n) else [])"
  proof (cases "j < length s \<and> s ! j = CHR ''.''")
    case True
    show ?thesis
      unfolding if_P [OF True] last using True
      by (simp add: Suc_le_eq del: upt_Suc seq.simps rmatch.simps)
  next
    case False
    then have F2: "\<not> (j < length s \<and> s ! j = CHR ''.'' \<and> 0 < ?n)" by blast
    show ?thesis unfolding if_not_P [OF False] if_not_P [OF F2] by simp
  qed
  finally show ?thesis
    unfolding rmatch_lookahead by (simp add: Let_def)
qed


lemma drop_Suc_Cons_eq: "drop j s = c # ys \<Longrightarrow> drop (Suc j) s = ys"
  by (metis drop_Suc list.sel(3) tl_drop)

lemma aliased_tail_alias:
  "rmatch (seq [dotted_suffix, as_lookahead]) s j g =
     (let n = length (takeWhile (\<lambda>c. \<not> isspace c) (drop (Suc j) s)) in
      if alias_follows (drop j s) then [(j + Suc n, g(2 \<mapsto> (j, j + Suc n)))] else [])"
proof (cases "drop j s")
  case Nil
  then have "\<not> j < length s" by simp
  with Nil show ?thesis unfolding aliased_tail by (simp add: alias_follows_def Let_def)
next
  case (Cons c ys)
  from drop_Cons_nth [OF Cons] have j: "j < length s" "s ! j = c" by simp_all
  have ys: "drop (Suc j) s = ys" using Cons by (rule drop_Suc_Cons_eq)
  let ?n = "length (takeWhile (\<lambda>c. \<not> isspace c) ys)"
  have d1: "drop (Suc j + ?n) s = dropWhile (\<lambda>c. \<not> isspace c) ys"
    using ys by (metis add.commute drop_drop dropWhile_eq_drop)
  let ?n2 = "length (takeWhile isspace (dropWhile (\<lambda>c. \<not> isspace c) ys))"
  have d2: "drop (Suc j + ?n + ?n2) s = dropWhile isspace (dropWhile (\<lambda>c. \<not> isspace c) ys)"
    using d1 by (metis add.commute drop_drop dropWhile_eq_drop)
  show ?thesis
    unfolding aliased_tail Let_def ys d1 d2 Cons
    using j by (simp add: alias_follows_def)
qed

lemma aliased_tail_none:
  "\<not> alias_follows (drop j s) \<Longrightarrow> rmatch (seq [dotted_suffix, as_lookahead]) s j g = []"
  unfolding aliased_tail_alias by (simp add: Let_def)

lemma aliased_tail_some:
  assumes "alias_follows (drop j s)" "j \<le> length s"
  shows "\<exists>m g' ps. rmatch (seq [dotted_suffix, as_lookahead]) s j g
        = (j + m, g') # ps \<and> g' 1 = g 1 \<and> g' 2 = Some (j, j + m)
      \<and> m \<le> length (drop j s) \<and> newline \<notin> set (take (m - 1) (drop j s))"
proof -
  from assms(1) obtain c ys where d: "drop j s = c # ys" and c: "c = CHR ''.''"
    by (cases "drop j s") (auto simp: alias_follows_def)
  have ys: "drop (Suc j) s = ys" using d by (rule drop_Suc_Cons_eq)
  let ?w = "takeWhile (\<lambda>c. \<not> isspace c) ys"
  let ?n = "length ?w"
  have le: "Suc ?n \<le> length (drop j s)" unfolding d by (simp add: length_takeWhile_le)
  from assms(1) d have n1: "?w \<noteq> []" by (simp add: alias_follows_def)
  have "take ?n (c # ys) = c # take (?n - 1) ys" using n1 by (cases ?n) simp_all
  moreover have "set (take (?n - 1) ys) \<subseteq> set ?w"
    by (metis diff_le_self set_take_subset_set_take takeWhile_eq_take)
  moreover have "newline \<notin> set ?w"
  proof
    assume "newline \<in> set ?w"
    then have "\<not> isspace newline" by (rule set_takeWhileD [THEN conjunct2])
    with isspace_newline show False by simp
  qed
  moreover have "c \<noteq> newline" by (simp add: c)
  ultimately have nonl: "newline \<notin> set (take (Suc ?n - 1) (drop j s))"
    unfolding d by auto
  show ?thesis
    unfolding aliased_tail_alias Let_def ys if_P [OF assms(1)]
    by (rule exI [of _ "Suc ?n"], rule exI [of _ "g(2 \<mapsto> (j, j + Suc ?n))"], rule exI [of _ "[]"])
      (use le nonl in simp)
qed

theorem rewrite_aliased_import_scan:
  assumes "list_all isident lib" "bsl \<notin> set namespace"
  shows "rewrite_aliased_import namespace lib t =
     Inr (scan (''import '' @ lib) (''import '' @ namespace @ ''.'' @ lib) alias_follows True t)"
proof -
  have K: "''import '' @ lib \<noteq> []" "\<not> isspace (hd (''import '' @ lib))"
    "newline \<notin> set (''import '' @ lib)"
    using ident_keyword [OF assms(1), of "''import ''"] by (simp_all add: isspace_def)
  have r: "aliased_import_regex lib
      = indent_regex (''import '' @ lib) [dotted_suffix, as_lookahead]"
    by (simp add: aliased_import_regex_def indent_regex_def)
  have "sub_loop (aliased_import_regex lib)
      (Group_Ref 1 # map Literal (''import '' @ namespace @ ''.'' @ lib) @ [Group_Ref 2]) t 0 False
    = scan (''import '' @ lib) (''import '' @ namespace @ ''.'' @ lib) alias_follows True t"
    unfolding r by (rule sub_loop_indent_scan [OF K aliased_tail_none aliased_tail_some])
  then show ?thesis
    unfolding rewrite_aliased_import_def re_sub_def
      compile_aliased_import [OF assms(1)]
      template_aliased_import [OF assms(2) no_bsl_ident [OF assms(1)]]
    by (simp only: option.case prod.case group_refs_ok_template if_True)
qed

subsection \<open>The search for a dotted import\<close>

lemma rev_upt_Suc_hd:
  "i \<le> m \<Longrightarrow> rev [i..<Suc m] = m # rev [i..<m]"
  by simp

lemma rmatch_dotted_body:
  "rmatch (Seq (Group 1 (seq (map Lit K @ [Plus NonSpace]))) Empty) s j g =
     (let n = length (takeWhile (\<lambda>c. \<not> isspace c) (drop (j + length K) s)) in
      if take (length K) (drop j s) = K
      then map (\<lambda>e. (e, g(1 \<mapsto> (j, e)))) (rev [Suc (j + length K)..<Suc (j + length K + n)])
      else [])"
proof -
  have p: "rmatch (seq [Plus NonSpace]) s i g
      = map (\<lambda>e. (e, g)) (rev [Suc i..<Suc (i + length (takeWhile (\<lambda>c. \<not> isspace c) (drop i s)))])" for i
    unfolding seq.simps rmatch_Seq_Empty by (rule plus_nonspace)
  have "rmatch (seq (map Lit K @ [Plus NonSpace])) s j g =
     (if take (length K) (drop j s) = K
      then map (\<lambda>e. (e, g)) (rev [Suc (j + length K)..<
          Suc (j + length K + length (takeWhile (\<lambda>c. \<not> isspace c) (drop (j + length K) s)))])
      else [])"
    unfolding rmatch_lits p ..
  then have "rmatch (Group 1 (seq (map Lit K @ [Plus NonSpace]))) s j g =
     map (\<lambda>p. (fst p, (snd p)(1 \<mapsto> (j, fst p))))
     (if take (length K) (drop j s) = K
      then map (\<lambda>e. (e, g)) (rev [Suc (j + length K)..<
          Suc (j + length K + length (takeWhile (\<lambda>c. \<not> isspace c) (drop (j + length K) s)))])
      else [])"
    by (simp only: rmatch.simps(15))
  then show ?thesis
    unfolding rmatch_Seq_Empty Let_def by (simp add: o_def del: upt_Suc)
qed

lemma drop_space_run_more:
  "drop (length pre + length (takeWhile isspace xs) + k) (pre @ xs) = drop k (dropWhile isspace xs)"
  by (simp add: dropWhile_eq_drop add.commute)

definition search_regex :: "string \<Rightarrow> regex" where
  "search_regex K =
     Seq At_Beginning_Line (Seq (Star Space)
       (Seq (Group 1 (seq (map Lit K @ [Plus NonSpace]))) Empty))"

lemma match_at_search:
  assumes K: "K \<noteq> []" "\<not> isspace (hd K)"
  shows "match_at (search_regex K) (pre @ xs) (length pre) False =
     (let rest = dropWhile isspace xs;
          q = length pre + length (takeWhile isspace xs);
          n = length (takeWhile (\<lambda>c. \<not> isspace c) (drop (length K) rest)) in
      if line_start pre \<and> take (length K) rest = K \<and> 0 < n
      then Some (q + length K + n, [1 \<mapsto> (q, q + length K + n)]) else None)"
proof -
  let ?body = "Seq (Group 1 (seq (map Lit K @ [Plus NonSpace]))) Empty"
  let ?q = "length pre + length (takeWhile isspace xs)"
  let ?rest = "dropWhile isspace xs"
  let ?n = "length (takeWhile (\<lambda>c. \<not> isspace c) (drop (length K) ?rest))"
  have bol: "rmatch (Seq At_Beginning_Line R) s i g
      = (if i = 0 \<or> s ! (i - 1) = newline then rmatch R s i g else [])" for R s i g
    by simp
  have fail: "rmatch ?body s j g' = []" if "j < length s" "isspace (s ! j)" for s j g'
  proof -
    obtain k K' where KK: "K = k # K'" using K(1) by (cases K) auto
    with that K(2) have "take (length K) (drop j s) \<noteq> K"
      by (auto simp: take_drop_Cons)
    then show ?thesis unfolding rmatch_dotted_body by (simp add: Let_def)
  qed
  have dq: "drop ?q (pre @ xs) = ?rest" by (simp add: dropWhile_eq_drop)
  have dqk: "drop (?q + length K) (pre @ xs) = drop (length K) ?rest"
    by (rule drop_space_run_more)
  have "rmatch (search_regex K) (pre @ xs) (length pre) Map.empty =
      (if line_start pre then rmatch ?body (pre @ xs) ?q Map.empty else [])"
  proof -
    have "rmatch (Seq (Star Space) ?body) (pre @ xs) (length pre) Map.empty
        = rmatch ?body (pre @ xs)
            (length pre + length (takeWhile isspace (drop (length pre) (pre @ xs)))) Map.empty"
      by (rule rmatch_spaces_then) (rule fail)
    then have sp: "rmatch (Seq (Star Space) ?body) (pre @ xs) (length pre) Map.empty
        = rmatch ?body (pre @ xs) ?q Map.empty"
      by (simp del: rmatch.simps)
    show ?thesis
      unfolding search_regex_def bol sp
      using bol_line_start [of pre xs] by (simp del: rmatch.simps)
  qed
  also have "rmatch ?body (pre @ xs) ?q Map.empty =
      (if take (length K) ?rest = K
       then map (\<lambda>e. (e, [1 \<mapsto> (?q, e)])) (rev [Suc (?q + length K)..<Suc (?q + length K + ?n)])
       else [])"
    unfolding rmatch_dotted_body Let_def dq dqk ..
  finally have r: "rmatch (search_regex K) (pre @ xs) (length pre) Map.empty =
      (if line_start pre then
        (if take (length K) ?rest = K
         then map (\<lambda>e. (e, [1 \<mapsto> (?q, e)])) (rev [Suc (?q + length K)..<Suc (?q + length K + ?n)])
         else [])
       else [])" .
  show ?thesis
  proof (cases "0 < ?n")
    case True
    then have "rev [Suc (?q + length K)..<Suc (?q + length K + ?n)]
        = (?q + length K + ?n) # rev [Suc (?q + length K)..<?q + length K + ?n]"
      by (intro rev_upt_Suc_hd) (simp add: Suc_le_eq)
    with True show ?thesis unfolding match_at_False r Let_def by (simp del: upt_Suc)
  next
    case False
    then have "rev [Suc (?q + length K)..<Suc (?q + length K + ?n)] = []" by simp
    with False show ?thesis unfolding match_at_False r Let_def by (simp del: upt_Suc)
  qed
qed

lemma dotted_import_regex_search:
  "dotted_import_regex lib = search_regex (''import '' @ lib @ ''.'')"
  by (simp add: dotted_import_regex_def search_regex_def)

lemma search_from_none:
  "(\<And>k. i \<le> k \<Longrightarrow> k \<le> length s \<Longrightarrow> match_at r s k False = None) \<Longrightarrow> i \<le> length s \<Longrightarrow>
     search_from r s i False = None"
proof (induction "length s - i" arbitrary: i rule: less_induct)
  case less
  have m: "match_at r s i False = None" by (rule less(2)) (use less(3) in simp_all)
  show ?case
  proof (cases "i < length s")
    case True
    then have "length s - Suc i < length s - i" by simp
    from less(1) [OF this] less(2) True have "search_from r s (Suc i) False = None" by simp
    with m True show ?thesis by (simp add: search_from.simps [of r s i False])
  next
    case False
    with m show ?thesis by (simp add: search_from.simps [of r s i False])
  qed
qed

subsection \<open>Lines of a text\<close>

lemma tok_hd: "tok K C xs \<Longrightarrow> xs \<noteq> [] \<and> hd xs = hd K"
  unfolding tok_def by (cases K; cases xs) auto

lemma tok_hd_neq: "xs = [] \<or> hd xs \<noteq> hd K \<Longrightarrow> \<not> tok K C xs"
  using tok_hd by blast

lemma scan_newline:
  assumes "newline \<notin> set K"
  shows "scan K X C lead (newline # zs) = newline # scan K X C True zs"
proof -
  have "\<not> tok K C (newline # zs)"
  proof
    assume t: "tok K C (newline # zs)"
    from tok_hd [OF t] have "hd K = newline" by simp
    moreover from t have "K \<noteq> []" by (simp add: tok_def)
    ultimately show False using assms by (metis hd_in_set)
  qed
  then show ?thesis by simp
qed

lemma scan_rest_of_line:
  assumes "newline \<notin> set K" "newline \<notin> set ys"
  shows "scan K X C False (ys @ newline # zs) = ys @ newline # scan K X C True zs"
    and "scan K X C False ys = ys"
  using scan_copy [OF assms(2), of K X C "newline # zs"] scan_copy [OF assms(2), of K X C "[]"]
    scan_newline [OF assms(1)]
  by simp_all

lemma scan_token:
  assumes "list_all isspace indent" "K \<noteq> []" "\<not> isspace (hd K)" "C rest"
  shows "scan K X C True (indent @ K @ rest) = indent @ X @ scan K X C False rest"
proof -
  obtain k K' where K: "K = k # K'" using assms(2) by (cases K) auto
  have "tok K C (K @ rest)" using assms(2,4) by (simp add: tok_def)
  then have "scan K X C True (K @ rest) = X @ scan K X C False rest" by (simp add: K)
  with scan_spaces [OF assms(1,3), of X C "K @ rest"] show ?thesis by simp
qed

lemma scan_other:
  assumes "list_all isspace indent" "\<not> isspace (hd K)" "\<not> isspace c" "\<not> tok K C (c # cs)"
  shows "scan K X C True (indent @ c # cs) = indent @ c # scan K X C False cs"
proof -
  from assms(3) isspace_newline have "c \<noteq> newline" by auto
  with scan_spaces [OF assms(1,2), of X C "c # cs"] assms(3,4) show ?thesis by simp
qed

lemma keyword_shorter:
  assumes "take (length K) (pre @ more) = K" "newline \<notin> set K" "pre \<noteq> []" "last pre = newline"
  shows "length K < length pre"
proof (rule ccontr)
  assume "\<not> length K < length pre"
  then have le: "length pre \<le> length K" by simp
  have "take (length pre) K = take (length pre) (take (length K) (pre @ more))"
    using assms(1) by simp
  also have "\<dots> = pre" using le by (simp add: min_absorb1)
  finally have "set pre \<subseteq> set K" by (metis set_take_subset)
  moreover have "newline \<in> set pre" using assms(3,4) by (metis last_in_set)
  ultimately show False using assms(2) by auto
qed

lemma tok_append_line:
  assumes K: "newline \<notin> set K" and C: "\<And>xs ys. xs \<noteq> [] \<Longrightarrow> C (xs @ ys) = C xs"
    and pre: "pre \<noteq> []" "last pre = newline"
  shows "tok K C (pre @ more) = tok K C pre"
proof (cases "take (length K) (pre @ more) = K \<or> take (length K) pre = K")
  case False
  then show ?thesis by (simp add: tok_def)
next
  case True
  have lt: "length K < length pre"
    using True keyword_shorter [OF _ K pre, of more] keyword_shorter [OF _ K pre, of "[]"] by auto
  then have "take (length K) (pre @ more) = take (length K) pre"
    and "drop (length K) (pre @ more) = drop (length K) pre @ more"
    and "drop (length K) pre \<noteq> []"
    by simp_all
  with C show ?thesis by (simp add: tok_def)
qed

lemma scan_append_line:
  assumes K: "newline \<notin> set K" and C: "\<And>xs ys. xs \<noteq> [] \<Longrightarrow> C (xs @ ys) = C xs"
  shows "pre \<noteq> [] \<Longrightarrow> last pre = newline \<Longrightarrow>
     scan K X C lead (pre @ more) = scan K X C lead pre @ scan K X C True more"
proof (induction "length pre" arbitrary: pre lead rule: less_induct)
  case less
  obtain c pre' where pre: "pre = c # pre'" using less.prems(1) by (cases pre) auto
  show ?case
  proof (cases "pre' = []")
    case True
    with pre less.prems(2) have "c = newline" by simp
    with True pre scan_newline [OF K] show ?thesis by simp
  next
    case False
    with pre less.prems(2) have last': "last pre' = newline" by simp
    note tk = tok_append_line [OF K C less.prems, of more]
    show ?thesis
    proof (cases "lead \<and> tok K C pre")
      case True
      then have t: "take (length K) pre = K" and Kne: "K \<noteq> []" by (simp_all add: tok_def)
      from keyword_shorter [OF _ K less.prems, of "[]"] t have lt: "length K < length pre" by simp
      let ?p = "drop (length K - 1) pre'"
      from lt pre Kne have lt': "length K - 1 < length pre'" by (cases K) simp_all
      have p: "?p \<noteq> []" "last ?p = newline" "length ?p < length pre"
        using lt' last' pre by (simp_all add: last_drop)
      have d: "drop (length K - 1) (pre' @ more) = ?p @ more"
        using lt' by simp
      from less.hyps [OF p(3) p(1) p(2), of False]
      have "scan K X C False (?p @ more) = scan K X C False ?p @ scan K X C True more" .
      with True tk d show ?thesis by (simp add: pre)
    next
      case nt: False
      have "length pre' < length pre" by (simp add: pre)
      from less.hyps [OF this False last']
      have "\<And>l. scan K X C l (pre' @ more) = scan K X C l pre' @ scan K X C True more" .
      with nt tk show ?thesis by (cases lead) (simp_all add: pre)
    qed
  qed
qed

lemma scan_append_line_start:
  assumes "newline \<notin> set K" "\<And>xs ys. xs \<noteq> [] \<Longrightarrow> C (xs @ ys) = C xs" "pre = [] \<or> last pre = newline"
  shows "scan K X C True (pre @ more) = scan K X C True pre @ scan K X C True more"
proof (cases "pre = []")
  case True
  then show ?thesis by simp
next
  case False
  with assms(3) have "last pre = newline" by simp
  from scan_append_line [OF assms(1,2) False this] show ?thesis .
qed

lemma scan_line_unchanged:
  assumes "list_all isspace indent" "\<not> isspace (hd K)" "newline \<notin> set K"
    "rest = [] \<or> \<not> isspace (hd rest)" "\<not> tok K C rest" "newline \<notin> set rest"
  shows "scan K X C True (indent @ rest) = indent @ rest"
proof (cases rest)
  case Nil
  with scan_spaces [OF assms(1,2), of X C "[]"] show ?thesis by simp
next
  case (Cons c cs)
  with assms(4) have c: "\<not> isspace c" by simp
  from assms(6) Cons have "newline \<notin> set cs" by simp
  from scan_rest_of_line(2) [OF assms(3) this] scan_other [OF assms(1,2) c, of C cs X] assms(5) Cons
  show ?thesis by simp
qed

lemma scan_line_token:
  assumes "list_all isspace indent" "K \<noteq> []" "\<not> isspace (hd K)" "newline \<notin> set K"
    "C trail" "newline \<notin> set trail"
  shows "scan K X C True (indent @ K @ trail) = indent @ X @ trail"
  using scan_token [where C = C and rest = trail and X = X, OF assms(1,2,3,5)]
    scan_rest_of_line(2) [OF assms(4,6)]
  by simp


lemma search_dotted_import_eq:
  "list_all isident lib \<Longrightarrow>
     search_dotted_import lib t = Inr (search_from (search_regex (''import '' @ lib @ ''.'')) t 0 False)"
  unfolding search_dotted_import_def re_search_def
  by (simp only: compile_dotted_import dotted_import_regex_search option.case prod.case)

lemma search_line_none:
  assumes K: "K \<noteq> []" "\<not> isspace (hd K)"
    and ind: "list_all isspace indent" "newline \<notin> set indent"
    and rest: "newline \<notin> set rest" "rest = [] \<or> \<not> isspace (hd rest)" "take (length K) rest \<noteq> K"
  shows "search_from (search_regex K) (indent @ rest) 0 False = None"
proof (rule search_from_none)
  fix k
  assume k: "k \<le> length (indent @ rest)"
  let ?s = "indent @ rest"
  show "match_at (search_regex K) ?s k False = None"
  proof (cases "k = 0")
    case True
    have "dropWhile isspace ?s = rest"
      using ind(1) rest(2) by (cases rest) (auto simp: dropWhile_append list_all_iff)
    with match_at_search [OF K, of "[]" ?s] rest(3) True show ?thesis
      by (simp add: Let_def)
  next
    case False
    with k have ne: "take k ?s \<noteq> []" by auto
    then have "last (take k ?s) \<in> set ?s" by (metis in_set_takeD last_in_set)
    with ind(2) rest(1) have "last (take k ?s) \<noteq> newline" by auto
    with ne have nl: "\<not> line_start (take k ?s)" by (simp add: line_start_def)
    have len: "length (take k ?s) = k" using k by simp
    from match_at_search [OF K, of "take k ?s" "drop k ?s"] nl show ?thesis
      unfolding len append_take_drop_id by (simp add: Let_def)
  qed
qed simp


subsection \<open>Lines that a rule leaves alone\<close>

lemma boundary_local: "xs \<noteq> [] \<Longrightarrow> boundary (xs @ ys) = boundary xs"
  by (cases xs) (simp_all add: boundary_def)

lemma dot_or_space_local: "xs \<noteq> [] \<Longrightarrow> dot_or_space (xs @ ys) = dot_or_space xs"
  by (cases xs) (simp_all add: dot_or_space_def)

lemma scan_context_token:
  assumes K: "K \<noteq> []" "\<not> isspace (hd K)" "newline \<notin> set K"
    and C: "\<And>xs ys. xs \<noteq> [] \<Longrightarrow> C (xs @ ys) = C xs"
    and pre: "pre = [] \<or> last pre = newline" and ind: "list_all isspace indent"
    and tr: "newline \<notin> set trail"
  shows "C (trail @ newline # post) \<Longrightarrow>
      scan K X C True (pre @ indent @ K @ trail @ newline # post)
        = scan K X C True pre @ indent @ X @ trail @ newline # scan K X C True post"
    and "C trail \<Longrightarrow>
      scan K X C True (pre @ indent @ K @ trail) = scan K X C True pre @ indent @ X @ trail"
proof -
  assume c: "C (trail @ newline # post)"
  have "scan K X C True (indent @ K @ trail @ newline # post)
      = indent @ X @ scan K X C False (trail @ newline # post)"
    by (rule scan_token [where C = C, OF ind K(1,2) c])
  also have "scan K X C False (trail @ newline # post) = trail @ newline # scan K X C True post"
    by (rule scan_rest_of_line(1) [OF K(3) tr])
  finally show "scan K X C True (pre @ indent @ K @ trail @ newline # post)
        = scan K X C True pre @ indent @ X @ trail @ newline # scan K X C True post"
    by (simp add: scan_append_line_start [OF K(3) C pre])
next
  assume c: "C trail"
  from scan_line_token [where C = C, OF ind K c tr]
  show "scan K X C True (pre @ indent @ K @ trail) = scan K X C True pre @ indent @ X @ trail"
    by (simp add: scan_append_line_start [OF K(3) C pre])
qed

lemma scan_context_other:
  assumes K: "\<not> isspace (hd K)" "newline \<notin> set K"
    and C: "\<And>xs ys. xs \<noteq> [] \<Longrightarrow> C (xs @ ys) = C xs"
    and pre: "pre = [] \<or> last pre = newline" and ind: "list_all isspace indent"
    and c: "\<not> isspace c" and cs: "newline \<notin> set cs"
  shows "\<not> tok K C (c # cs @ newline # post) \<Longrightarrow>
      scan K X C True (pre @ indent @ c # cs @ newline # post)
        = scan K X C True pre @ indent @ c # cs @ newline # scan K X C True post"
    and "\<not> tok K C (c # cs) \<Longrightarrow>
      scan K X C True (pre @ indent @ c # cs) = scan K X C True pre @ indent @ c # cs"
proof -
  assume t: "\<not> tok K C (c # cs @ newline # post)"
  have "scan K X C True (indent @ c # cs @ newline # post)
      = indent @ c # scan K X C False (cs @ newline # post)"
    by (rule scan_other [OF ind K(1) c t])
  also have "scan K X C False (cs @ newline # post) = cs @ newline # scan K X C True post"
    by (rule scan_rest_of_line(1) [OF K(2) cs])
  finally show "scan K X C True (pre @ indent @ c # cs @ newline # post)
        = scan K X C True pre @ indent @ c # cs @ newline # scan K X C True post"
    by (simp add: scan_append_line_start [OF K(2) C pre])
next
  assume t: "\<not> tok K C (c # cs)"
  from c cs isspace_newline have "newline \<notin> set (c # cs)" by auto
  from scan_line_unchanged [OF ind K _ t this] c
  show "scan K X C True (pre @ indent @ c # cs) = scan K X C True pre @ indent @ c # cs"
    by (simp add: scan_append_line_start [OF K(2) C pre])
qed

lemma import_keyword:
  assumes "list_all isident lib"
  shows "''import '' @ lib \<noteq> []" "\<not> isspace (hd (''import '' @ lib))"
    "newline \<notin> set (''import '' @ lib)" "hd (''import '' @ lib) = CHR ''i''"
  using ident_keyword [OF assms, of "''import ''"] by (simp_all add: isspace_def)

lemma from_keyword:
  assumes "list_all isident lib"
  shows "''from '' @ lib \<noteq> []" "\<not> isspace (hd (''from '' @ lib))"
    "newline \<notin> set (''from '' @ lib)" "hd (''from '' @ lib) = CHR ''f''"
  using ident_keyword [OF assms, of "''from ''"] by (simp_all add: isspace_def)

lemma dotted_keyword:
  "''import '' @ lib @ ''.'' \<noteq> []" "\<not> isspace (hd (''import '' @ lib @ ''.''))"
  by (simp_all add: isspace_def)

lemma take_hd_neq: "K \<noteq> [] \<Longrightarrow> rest = [] \<or> hd rest \<noteq> hd K \<Longrightarrow> take (length K) rest \<noteq> K"
  by (cases K; cases rest) auto

text \<open>Lines that a rule leaves alone, for a text of one line.\<close>

lemma plain_import_unchanged:
  assumes "list_all isident lib" "bsl \<notin> set namespace" "list_all isspace indent"
    "rest = [] \<or> \<not> isspace (hd rest)" "newline \<notin> set rest"
    "\<not> tok (''import '' @ lib) boundary rest"
  shows "rewrite_plain_import namespace lib (indent @ rest) = Inr (indent @ rest)"
  unfolding rewrite_plain_import_scan [OF assms(1,2)]
  using scan_line_unchanged [OF assms(3) import_keyword(2,3) [OF assms(1)] assms(4,6,5)]
  by simp

lemma aliased_import_unchanged:
  assumes "list_all isident lib" "bsl \<notin> set namespace" "list_all isspace indent"
    "rest = [] \<or> \<not> isspace (hd rest)" "newline \<notin> set rest"
    "\<not> tok (''import '' @ lib) alias_follows rest"
  shows "rewrite_aliased_import namespace lib (indent @ rest) = Inr (indent @ rest)"
  unfolding rewrite_aliased_import_scan [OF assms(1,2)]
  using scan_line_unchanged [OF assms(3) import_keyword(2,3) [OF assms(1)] assms(4,6,5)]
  by simp

lemma from_import_unchanged:
  assumes "list_all isident lib" "bsl \<notin> set namespace" "list_all isspace indent"
    "rest = [] \<or> \<not> isspace (hd rest)" "newline \<notin> set rest"
    "\<not> tok (''from '' @ lib) dot_or_space rest"
  shows "rewrite_from_import namespace lib (indent @ rest) = Inr (indent @ rest)"
  unfolding rewrite_from_import_scan [OF assms(1,2)]
  using scan_line_unchanged [OF assms(3) from_keyword(2,3) [OF assms(1)] assms(4,6,5)]
  by simp

lemma dotted_import_absent:
  assumes "list_all isident lib" "list_all isspace indent" "newline \<notin> set indent"
    "rest = [] \<or> \<not> isspace (hd rest)" "newline \<notin> set rest"
    "take (length (''import '' @ lib @ ''.'')) rest \<noteq> ''import '' @ lib @ ''.''"
  shows "search_dotted_import lib (indent @ rest) = Inr None"
  unfolding search_dotted_import_eq [OF assms(1)]
  using search_line_none [OF dotted_keyword assms(2,3,5,4,6)]
  by simp

lemma rewrite_text_single:
  "namespace \<noteq> [] \<Longrightarrow> rewrite_text item namespace [lib] [] t = rewrite_lib item namespace lib t"
  by (simp add: rewrite_text_def split: sum.splits)

lemma rewrite_lib_passes:
  assumes "rewrite_plain_import namespace lib t = Inr t1"
    "rewrite_aliased_import namespace lib t1 = Inr t2"
    "search_dotted_import lib t2 = Inr None"
    "rewrite_from_import namespace lib t2 = Inr t3"
  shows "rewrite_lib item namespace lib t = Inr t3"
  using assms by (simp add: rewrite_lib_def)

lemma namespace_not_keyword:
  assumes L: "list_all isident lib" and N: "list_all isdotted namespace"
    and p: "take (Suc (length lib)) (namespace @ ''.'') \<noteq> lib @ ''.''"
    and sp: "\<not> isident sp"
    and t: "take (Suc (length lib)) (namespace @ sp # more) = lib @ [d]"
    and d: "d = CHR ''.'' \<or> isspace d"
  shows False
proof -
  consider "length lib < length namespace" | "length lib = length namespace"
    | "length namespace < length lib" by linarith
  then show False
  proof cases
    case 1
    with t have e: "take (Suc (length lib)) namespace = lib @ [d]" by simp
    then have "d \<in> set (take (Suc (length lib)) namespace)" by simp
    then have "d \<in> set namespace" by (rule in_set_takeD)
    with N have "isdotted d" by (simp add: list_all_iff)
    with d isdotted_facts(2) have "d = CHR ''.''" by blast
    with e 1 p show False by simp
  next
    case 2
    with t have "namespace = lib" by simp
    with p show False by simp
  next
    case 3
    from t have "(namespace @ sp # more) ! length namespace = (lib @ [d]) ! length namespace"
      using 3 by (metis Suc_lessD less_Suc_eq nth_take)
    with 3 have "lib ! length namespace = sp" by (simp add: nth_append)
    moreover from L 3 have "isident (lib ! length namespace)" by (simp add: list_all_length)
    ultimately show False using sp by simp
  qed
qed

subsection \<open>Plain imports\<close>

lemma not_tok_tail: "\<not> C (drop (length K) xs) \<Longrightarrow> \<not> tok K C xs"
  by (simp add: tok_def)

lemma tok_from_namespace:
  assumes L: "list_all isident lib" and N: "list_all isdotted namespace"
    and p: "take (Suc (length lib)) (namespace @ ''.'') \<noteq> lib @ ''.''"
    and sp: "\<not> isident sp"
  shows "\<not> tok (''from '' @ lib) dot_or_space (''from '' @ namespace @ sp # more)"
proof
  let ?Z = "namespace @ sp # more"
  assume "tok (''from '' @ lib) dot_or_space (''from '' @ namespace @ sp # more)"
  then have t: "take (length lib) ?Z = lib" and c: "dot_or_space (drop (length lib) ?Z)"
    by (simp_all add: tok_def)
  from c obtain d r where dr: "drop (length lib) ?Z = d # r" and d: "d = CHR ''.'' \<or> isspace d"
    by (cases "drop (length lib) ?Z") (auto simp: dot_or_space_def)
  from drop_Cons_nth [OF dr] have lt: "length lib < length ?Z" and nth: "?Z ! length lib = d"
    by simp_all
  have "take (Suc (length lib)) ?Z = take (length lib) ?Z @ [?Z ! length lib]"
    using lt by (rule take_Suc_conv_app_nth)
  then have "take (Suc (length lib)) ?Z = lib @ [d]"
    unfolding t nth .
  from namespace_not_keyword [OF L N p sp this d] show False .
qed


lemma newline_dotted: "list_all isdotted cs \<Longrightarrow> newline \<notin> set cs"
  using isdotted_facts(3) by (auto simp: list_all_iff)

lemma newline_ident: "list_all isident cs \<Longrightarrow> newline \<notin> set cs"
  using isident_not_space(2) by (auto simp: list_all_iff)

lemma boundary_after_keyword:
  "trail = [] \<or> isspace (hd trail) \<Longrightarrow> boundary (trail @ newline # post) \<and> boundary trail"
  by (cases trail) (simp_all add: boundary_def isspace_newline)

lemma plain_import_lines:
  assumes L: "list_all isident lib" and N: "bsl \<notin> set namespace"
    and pre: "pre = [] \<or> last pre = newline" and ind: "list_all isspace indent"
    and tr: "newline \<notin> set trail" "trail = [] \<or> isspace (hd trail)"
    and mo: "newline \<notin> set more" "\<not> isspace c"
  shows "\<exists>pre' post'.
      rewrite_plain_import namespace lib pre = Inr pre'
    \<and> rewrite_plain_import namespace lib post = Inr post'
    \<and> rewrite_plain_import namespace lib (pre @ indent @ ''import '' @ lib @ trail @ newline # post)
        = Inr (pre' @ indent @ ''from '' @ namespace @ '' import '' @ lib @ trail @ newline # post')
    \<and> rewrite_plain_import namespace lib (pre @ indent @ ''import '' @ lib @ trail)
        = Inr (pre' @ indent @ ''from '' @ namespace @ '' import '' @ lib @ trail)
    \<and> rewrite_plain_import namespace lib (pre @ indent @ ''import '' @ lib @ c # more @ newline # post)
        = Inr (pre' @ indent @ ''import '' @ lib @ c # more @ newline # post')
    \<and> rewrite_plain_import namespace lib (pre @ indent @ ''import '' @ lib @ c # more)
        = Inr (pre' @ indent @ ''import '' @ lib @ c # more)"
proof -
  let ?K = "''import '' @ lib"
  let ?X = "''from '' @ namespace @ '' import '' @ lib"
  note K = import_keyword [OF L]
  note b = boundary_after_keyword [OF tr(2), of post]
  have t1: "scan ?K ?X boundary True (pre @ indent @ ?K @ trail @ newline # post)
      = scan ?K ?X boundary True pre @ indent @ ?X @ trail @ newline # scan ?K ?X boundary True post"
    by (rule scan_context_token(1) [where C = boundary, OF K(1,2,3) _ pre ind tr(1) conjunct1 [OF b]])
      (rule boundary_local)
  have t2: "scan ?K ?X boundary True (pre @ indent @ ?K @ trail)
      = scan ?K ?X boundary True pre @ indent @ ?X @ trail"
    by (rule scan_context_token(2) [where C = boundary, OF K(1,2,3) _ pre ind tr(1) conjunct2 [OF b]])
      (rule boundary_local)
  have nb: "\<not> boundary (drop (length ?K) (?K @ c # ys))" for ys
    using mo(2) by (simp add: boundary_def)
  have cs: "newline \<notin> set (''mport '' @ lib @ c # more)"
    using newline_ident [OF L] mo isspace_newline by auto
  have i: "\<not> isspace CHR ''i''" by (simp add: isspace_def)
  have n1: "\<not> tok ?K boundary (CHR ''i'' # (''mport '' @ lib @ c # more) @ newline # post)"
    using not_tok_tail [where C = boundary, OF nb [of "more @ newline # post"]] by simp
  have n2: "\<not> tok ?K boundary (CHR ''i'' # ''mport '' @ lib @ c # more)"
    using not_tok_tail [where C = boundary, OF nb [of more]] by simp
  have "scan ?K ?X boundary True (pre @ indent @ CHR ''i'' # (''mport '' @ lib @ c # more) @ newline # post)
      = scan ?K ?X boundary True pre @ indent @ CHR ''i'' # (''mport '' @ lib @ c # more) @ newline
          # scan ?K ?X boundary True post"
    by (rule scan_context_other(1) [where C = boundary, OF K(2,3) _ pre ind i cs n1])
      (rule boundary_local)
  then have o1: "scan ?K ?X boundary True (pre @ indent @ ?K @ c # more @ newline # post)
      = scan ?K ?X boundary True pre @ indent @ ?K @ c # more @ newline # scan ?K ?X boundary True post"
    by simp
  have "scan ?K ?X boundary True (pre @ indent @ CHR ''i'' # ''mport '' @ lib @ c # more)
      = scan ?K ?X boundary True pre @ indent @ CHR ''i'' # ''mport '' @ lib @ c # more"
    by (rule scan_context_other(2) [where C = boundary, OF K(2,3) _ pre ind i cs n2])
      (rule boundary_local)
  then have o2: "scan ?K ?X boundary True (pre @ indent @ ?K @ c # more)
      = scan ?K ?X boundary True pre @ indent @ ?K @ c # more"
    by simp
  show ?thesis
    unfolding rewrite_plain_import_scan [OF L N]
    using t1 t2 o1 o2 by simp
qed

lemma plain_import_end_to_end:
  assumes L: "list_all isident lib" and N: "list_all isdotted namespace" "namespace \<noteq> []"
    and p: "take (Suc (length lib)) (namespace @ ''.'') \<noteq> lib @ ''.''"
    and ind: "list_all isspace indent" "newline \<notin> set indent"
    and tr: "newline \<notin> set trail" "trail = [] \<or> isspace (hd trail)"
  shows "rewrite_text item namespace [lib] [] (indent @ ''import '' @ lib @ trail)
      = Inr (indent @ ''from '' @ namespace @ '' import '' @ lib @ trail)"
proof -
  let ?K = "''import '' @ lib"
  let ?X = "''from '' @ namespace @ '' import '' @ lib"
  let ?rest = "?X @ trail"
  note K = import_keyword [OF L]
  note Nb = no_bsl_dotted [OF N(1)]
  have r1: "rewrite_plain_import namespace lib (indent @ ?K @ trail) = Inr (indent @ ?rest)"
    unfolding rewrite_plain_import_scan [OF L Nb]
    using scan_line_token [where C = boundary and X = ?X, OF ind(1) K(1,2,3)
        conjunct2 [OF boundary_after_keyword [OF tr(2)]] tr(1)]
    by simp
  have rest: "?rest = [] \<or> \<not> isspace (hd ?rest)" "newline \<notin> set ?rest"
    using newline_dotted [OF N(1)] newline_ident [OF L] tr(1) by (simp_all add: isspace_def)
  have hd: "?rest = [] \<or> hd ?rest \<noteq> hd K'" if "hd K' = CHR ''i''" for K'
    using that by simp
  have r2: "rewrite_aliased_import namespace lib (indent @ ?rest) = Inr (indent @ ?rest)"
    by (rule aliased_import_unchanged [OF L Nb ind(1) rest tok_hd_neq [OF hd [OF K(4)]]])
  have r3: "search_dotted_import lib (indent @ ?rest) = Inr None"
    by (rule dotted_import_absent [OF L ind rest take_hd_neq [OF dotted_keyword(1) hd]]) simp
  have sp: "\<not> isident CHR '' ''" using isident_not_space(4) by blast
  have "\<not> tok (''from '' @ lib) dot_or_space (''from '' @ namespace @ CHR '' '' # ''import '' @ lib @ trail)"
    by (rule tok_from_namespace [OF L N(1) p sp])
  then have nt: "\<not> tok (''from '' @ lib) dot_or_space ?rest" by simp
  have r4: "rewrite_from_import namespace lib (indent @ ?rest) = Inr (indent @ ?rest)"
    by (rule from_import_unchanged [OF L Nb ind(1) rest nt])
  from rewrite_lib_passes [OF r1 r2 r3 r4, of item] show ?thesis
    by (simp add: rewrite_text_single [OF N(2)])
qed

lemma longer_name_end_to_end:
  assumes L: "list_all isident lib" and N: "list_all isdotted namespace" "namespace \<noteq> []"
    and ind: "list_all isspace indent" "newline \<notin> set indent"
    and mo: "newline \<notin> set more" "\<not> isspace c" "c \<noteq> CHR ''.''"
  shows "rewrite_text item namespace [lib] [] (indent @ ''import '' @ lib @ c # more)
      = Inr (indent @ ''import '' @ lib @ c # more)"
proof -
  let ?K = "''import '' @ lib"
  let ?rest = "?K @ c # more"
  note K = import_keyword [OF L]
  note Nb = no_bsl_dotted [OF N(1)]
  have rest: "?rest = [] \<or> \<not> isspace (hd ?rest)" "newline \<notin> set ?rest"
    using newline_ident [OF L] mo isspace_newline by (auto simp: isspace_def)
  have "\<not> boundary (drop (length ?K) ?rest)" using mo(2) by (simp add: boundary_def)
  from plain_import_unchanged [OF L Nb ind(1) rest not_tok_tail [where C = boundary, OF this]]
  have r1: "rewrite_plain_import namespace lib (indent @ ?rest) = Inr (indent @ ?rest)" .
  have "\<not> alias_follows (drop (length ?K) ?rest)" using mo(3) by (simp add: alias_follows_def)
  from aliased_import_unchanged [OF L Nb ind(1) rest not_tok_tail [where C = alias_follows, OF this]]
  have r2: "rewrite_aliased_import namespace lib (indent @ ?rest) = Inr (indent @ ?rest)" .
  have "take (length (''import '' @ lib @ ''.'')) ?rest \<noteq> ''import '' @ lib @ ''.''"
    using mo(3) by simp
  from dotted_import_absent [OF L ind rest this]
  have r3: "search_dotted_import lib (indent @ ?rest) = Inr None" .
  have "?rest = [] \<or> hd ?rest \<noteq> hd (''from '' @ lib)" by simp
  from from_import_unchanged [OF L Nb ind(1) rest tok_hd_neq [OF this]]
  have r4: "rewrite_from_import namespace lib (indent @ ?rest) = Inr (indent @ ?rest)" .
  from rewrite_lib_passes [OF r1 r2 r3 r4, of item] show ?thesis
    by (simp add: rewrite_text_single [OF N(2)])
qed

subsection \<open>From imports, aliased imports and dotted imports\<close>

lemma from_import_lines:
  assumes L: "list_all isident lib" "lib \<noteq> []" and N: "bsl \<notin> set namespace"
    and pre: "pre = [] \<or> last pre = newline" and ind: "list_all isspace indent"
    and tr: "newline \<notin> set trail" and d: "d = CHR ''.'' \<or> isspace d" "d \<noteq> newline"
  shows "\<exists>pre' post'.
      rewrite_from_import namespace lib pre = Inr pre'
    \<and> rewrite_from_import namespace lib post = Inr post'
    \<and> rewrite_from_import namespace lib (pre @ indent @ ''from '' @ lib @ d # trail @ newline # post)
        = Inr (pre' @ indent @ ''from '' @ namespace @ ''.'' @ lib @ d # trail @ newline # post')
    \<and> rewrite_from_import namespace lib (pre @ indent @ ''from '' @ lib @ d # trail)
        = Inr (pre' @ indent @ ''from '' @ namespace @ ''.'' @ lib @ d # trail)
    \<and> rewrite_from_import namespace lib (pre @ indent @ ''from .'' @ trail @ newline # post)
        = Inr (pre' @ indent @ ''from .'' @ trail @ newline # post')
    \<and> rewrite_from_import namespace lib (pre @ indent @ ''from .'' @ trail)
        = Inr (pre' @ indent @ ''from .'' @ trail)"
proof -
  let ?K = "''from '' @ lib"
  let ?X = "''from '' @ namespace @ ''.'' @ lib"
  note K = from_keyword [OF L(1)]
  have dt: "newline \<notin> set (d # trail)" using tr d(2) by auto
  have c1: "dot_or_space ((d # trail) @ newline # post)" and c2: "dot_or_space (d # trail)"
    using d(1) by (simp_all add: dot_or_space_def)
  have "scan ?K ?X dot_or_space True (pre @ indent @ ?K @ (d # trail) @ newline # post)
      = scan ?K ?X dot_or_space True pre @ indent @ ?X @ (d # trail) @ newline
          # scan ?K ?X dot_or_space True post"
    by (rule scan_context_token(1) [where C = dot_or_space, OF K(1,2,3) _ pre ind dt c1])
      (rule dot_or_space_local)
  then have t1: "scan ?K ?X dot_or_space True (pre @ indent @ ?K @ d # trail @ newline # post)
      = scan ?K ?X dot_or_space True pre @ indent @ ?X @ d # trail @ newline
          # scan ?K ?X dot_or_space True post"
    by simp
  have t2: "scan ?K ?X dot_or_space True (pre @ indent @ ?K @ d # trail)
      = scan ?K ?X dot_or_space True pre @ indent @ ?X @ d # trail"
    by (rule scan_context_token(2) [where C = dot_or_space, OF K(1,2,3) _ pre ind dt c2])
      (rule dot_or_space_local)
  obtain l lib' where lib: "lib = l # lib'" using L(2) by (cases lib) auto
  with L(1) isident_not_space(3) [of l] have l: "l \<noteq> CHR ''.''" by simp
  have cs: "newline \<notin> set (''rom .'' @ trail)" using tr by simp
  have f: "\<not> isspace CHR ''f''" by (simp add: isspace_def)
  have n1: "\<not> tok ?K dot_or_space (CHR ''f'' # (''rom .'' @ trail) @ newline # post)"
    using l by (simp add: tok_def lib)
  have n2: "\<not> tok ?K dot_or_space (CHR ''f'' # ''rom .'' @ trail)"
    using l by (simp add: tok_def lib)
  have "scan ?K ?X dot_or_space True (pre @ indent @ CHR ''f'' # (''rom .'' @ trail) @ newline # post)
      = scan ?K ?X dot_or_space True pre @ indent @ CHR ''f'' # (''rom .'' @ trail) @ newline
          # scan ?K ?X dot_or_space True post"
    by (rule scan_context_other(1) [where C = dot_or_space, OF K(2,3) _ pre ind f cs n1])
      (rule dot_or_space_local)
  then have o1: "scan ?K ?X dot_or_space True (pre @ indent @ ''from .'' @ trail @ newline # post)
      = scan ?K ?X dot_or_space True pre @ indent @ ''from .'' @ trail @ newline
          # scan ?K ?X dot_or_space True post"
    by simp
  have "scan ?K ?X dot_or_space True (pre @ indent @ CHR ''f'' # ''rom .'' @ trail)
      = scan ?K ?X dot_or_space True pre @ indent @ CHR ''f'' # ''rom .'' @ trail"
    by (rule scan_context_other(2) [where C = dot_or_space, OF K(2,3) _ pre ind f cs n2])
      (rule dot_or_space_local)
  then have o2: "scan ?K ?X dot_or_space True (pre @ indent @ ''from .'' @ trail)
      = scan ?K ?X dot_or_space True pre @ indent @ ''from .'' @ trail"
    by simp
  show ?thesis
    unfolding rewrite_from_import_scan [OF L(1) N]
    using t1 t2 o1 o2 by simp
qed

text \<open>A line that starts with \<open>from\<close> passes the three steps about \<open>import\<close>.\<close>

lemma from_line_passes:
  assumes L: "list_all isident lib" and N: "bsl \<notin> set namespace"
    and ind: "list_all isspace indent" "newline \<notin> set indent"
    and rest: "newline \<notin> set rest" "rest \<noteq> []" "hd rest = CHR ''f''"
  shows "rewrite_plain_import namespace lib (indent @ rest) = Inr (indent @ rest)"
    and "rewrite_aliased_import namespace lib (indent @ rest) = Inr (indent @ rest)"
    and "search_dotted_import lib (indent @ rest) = Inr None"
proof -
  note K = import_keyword [OF L]
  have r: "rest = [] \<or> \<not> isspace (hd rest)" using rest(3) by (simp add: isspace_def)
  have hd: "rest = [] \<or> hd rest \<noteq> hd K'" if "hd K' = CHR ''i''" for K'
    using that rest(3) by simp
  show "rewrite_plain_import namespace lib (indent @ rest) = Inr (indent @ rest)"
    by (rule plain_import_unchanged [OF L N ind(1) r rest(1) tok_hd_neq [OF hd [OF K(4)]]])
  show "rewrite_aliased_import namespace lib (indent @ rest) = Inr (indent @ rest)"
    by (rule aliased_import_unchanged [OF L N ind(1) r rest(1) tok_hd_neq [OF hd [OF K(4)]]])
  show "search_dotted_import lib (indent @ rest) = Inr None"
    by (rule dotted_import_absent [OF L ind r rest(1) take_hd_neq [OF dotted_keyword(1) hd]]) simp
qed

lemma from_import_end_to_end:
  assumes L: "list_all isident lib" and N: "list_all isdotted namespace" "namespace \<noteq> []"
    and ind: "list_all isspace indent" "newline \<notin> set indent"
    and tr: "newline \<notin> set trail" and d: "d = CHR ''.'' \<or> isspace d" "d \<noteq> newline"
  shows "rewrite_text item namespace [lib] [] (indent @ ''from '' @ lib @ d # trail)
      = Inr (indent @ ''from '' @ namespace @ ''.'' @ lib @ d # trail)"
proof -
  let ?K = "''from '' @ lib"
  let ?X = "''from '' @ namespace @ ''.'' @ lib"
  let ?rest = "?K @ d # trail"
  note K = from_keyword [OF L]
  note Nb = no_bsl_dotted [OF N(1)]
  have rest: "newline \<notin> set ?rest" "?rest \<noteq> []" "hd ?rest = CHR ''f''"
    using newline_ident [OF L] tr d(2) by simp_all
  note p = from_line_passes [OF L Nb ind rest]
  have dt: "newline \<notin> set (d # trail)" using tr d(2) by auto
  have c: "dot_or_space (d # trail)" using d(1) by (simp add: dot_or_space_def)
  have r4: "rewrite_from_import namespace lib (indent @ ?rest) = Inr (indent @ ?X @ d # trail)"
    unfolding rewrite_from_import_scan [OF L Nb]
    using scan_line_token [where C = dot_or_space and X = ?X, OF ind(1) K(1,2,3) c dt]
    by simp
  from rewrite_lib_passes [OF p(1) p(2) p(3) r4, of item] show ?thesis
    by (simp add: rewrite_text_single [OF N(2)])
qed

lemma relative_import_end_to_end:
  assumes L: "list_all isident lib" "lib \<noteq> []" and N: "list_all isdotted namespace" "namespace \<noteq> []"
    and ind: "list_all isspace indent" "newline \<notin> set indent"
    and tr: "newline \<notin> set trail"
  shows "rewrite_text item namespace [lib] [] (indent @ ''from .'' @ trail)
      = Inr (indent @ ''from .'' @ trail)"
proof -
  let ?rest = "''from .'' @ trail"
  note Nb = no_bsl_dotted [OF N(1)]
  have rest: "newline \<notin> set ?rest" "?rest \<noteq> []" "hd ?rest = CHR ''f''"
    using tr by simp_all
  note p = from_line_passes [OF L(1) Nb ind rest]
  obtain l lib' where lib: "lib = l # lib'" using L(2) by (cases lib) auto
  with L(1) isident_not_space(3) [of l] have l: "l \<noteq> CHR ''.''" by simp
  have nt: "\<not> tok (''from '' @ lib) dot_or_space ?rest"
    using l by (simp add: tok_def lib)
  have r: "?rest = [] \<or> \<not> isspace (hd ?rest)" by (simp add: isspace_def)
  have r4: "rewrite_from_import namespace lib (indent @ ?rest) = Inr (indent @ ?rest)"
    by (rule from_import_unchanged [OF L(1) Nb ind(1) r rest(1) nt])
  from rewrite_lib_passes [OF p(1) p(2) p(3) r4, of item] show ?thesis
    by (simp add: rewrite_text_single [OF N(2)])
qed







subsection \<open>The four rules, line by line\<close>






text \<open>
  Claim C3 as stated fails.  With the library name \<open>a+b\<close> the line \<open>import a+b\<close> is not rewritten; with
  the namespace \<open>\2\<close> the replacement reads the namespace as a group reference; with the
  namespace \<open>a.x\<close> and the library \<open>a\<close> the line \<open>from a.x import a\<close> that the first substitution
  writes is rewritten once more by the last one.
\<close>

theorem plain_import_counterexample:
  "rewrite_plain_import ''vend'' ''a+b'' ''import a+b'' = Inr ''import a+b''
   \<and> rewrite_plain_import (bsl # ''2'') ''a'' ''import a'' = Inr ''from  import a''
   \<and> rewrite_text [''m.py''] ''a.x'' [''a''] [] ''import a'' = Inr ''from a.x.a.x import a''"
  by code_simp

text \<open>
  Claim C3, amended.  For a library name of letters, digits and underscores and a namespace of such
  names joined by dots, the first substitution rewrites a line \<open>import lib\<close> that is followed by
  whitespace or by the end of the line to \<open>from namespace import lib\<close> and keeps the indentation
  and the rest of the line; it leaves a line alone where \<open>import lib\<close> is followed by another
  character; and it rewrites the lines before and after as it does on their own.  When the
  namespace is not empty and is neither the library name nor starts with the library name and a
  dot, the four steps for this library together give the same line; a line where \<open>import lib\<close>
  is followed by a character other than whitespace and the dot passes the four steps unchanged.
\<close>

theorem plain_import_rewritten:
  assumes "list_all isident lib" and "list_all isdotted namespace"
    and "pre = [] \<or> last pre = newline" and "list_all isspace indent"
    and "newline \<notin> set trail" and "trail = [] \<or> isspace (hd trail)"
    and "newline \<notin> set more" and "\<not> isspace c"
  shows "(\<exists>pre' post'.
        rewrite_plain_import namespace lib pre = Inr pre'
      \<and> rewrite_plain_import namespace lib post = Inr post'
      \<and> rewrite_plain_import namespace lib (pre @ indent @ ''import '' @ lib @ trail @ newline # post)
          = Inr (pre' @ indent @ ''from '' @ namespace @ '' import '' @ lib @ trail @ newline # post')
      \<and> rewrite_plain_import namespace lib (pre @ indent @ ''import '' @ lib @ trail)
          = Inr (pre' @ indent @ ''from '' @ namespace @ '' import '' @ lib @ trail)
      \<and> rewrite_plain_import namespace lib (pre @ indent @ ''import '' @ lib @ c # more @ newline # post)
          = Inr (pre' @ indent @ ''import '' @ lib @ c # more @ newline # post')
      \<and> rewrite_plain_import namespace lib (pre @ indent @ ''import '' @ lib @ c # more)
          = Inr (pre' @ indent @ ''import '' @ lib @ c # more))
    \<and> (namespace \<noteq> [] \<and> newline \<notin> set indent
        \<and> take (Suc (length lib)) (namespace @ ''.'') \<noteq> lib @ ''.''
       \<longrightarrow> rewrite_text item namespace [lib] [] (indent @ ''import '' @ lib @ trail)
          = Inr (indent @ ''from '' @ namespace @ '' import '' @ lib @ trail))
    \<and> (namespace \<noteq> [] \<and> newline \<notin> set indent \<and> c \<noteq> CHR ''.''
       \<longrightarrow> rewrite_text item namespace [lib] [] (indent @ ''import '' @ lib @ c # more)
          = Inr (indent @ ''import '' @ lib @ c # more))"
proof (intro conjI impI)
  show "\<exists>pre' post'.
        rewrite_plain_import namespace lib pre = Inr pre'
      \<and> rewrite_plain_import namespace lib post = Inr post'
      \<and> rewrite_plain_import namespace lib (pre @ indent @ ''import '' @ lib @ trail @ newline # post)
          = Inr (pre' @ indent @ ''from '' @ namespace @ '' import '' @ lib @ trail @ newline # post')
      \<and> rewrite_plain_import namespace lib (pre @ indent @ ''import '' @ lib @ trail)
          = Inr (pre' @ indent @ ''from '' @ namespace @ '' import '' @ lib @ trail)
      \<and> rewrite_plain_import namespace lib (pre @ indent @ ''import '' @ lib @ c # more @ newline # post)
          = Inr (pre' @ indent @ ''import '' @ lib @ c # more @ newline # post')
      \<and> rewrite_plain_import namespace lib (pre @ indent @ ''import '' @ lib @ c # more)
          = Inr (pre' @ indent @ ''import '' @ lib @ c # more)"
    by (rule plain_import_lines [OF assms(1) no_bsl_dotted [OF assms(2)] assms(3-8)])
next
  assume "namespace \<noteq> [] \<and> newline \<notin> set indent
        \<and> take (Suc (length lib)) (namespace @ ''.'') \<noteq> lib @ ''.''"
  then have h: "namespace \<noteq> []" "newline \<notin> set indent"
    "take (Suc (length lib)) (namespace @ ''.'') \<noteq> lib @ ''.''"
    by simp_all
  show "rewrite_text item namespace [lib] [] (indent @ ''import '' @ lib @ trail)
          = Inr (indent @ ''from '' @ namespace @ '' import '' @ lib @ trail)"
    by (rule plain_import_end_to_end [OF assms(1,2) h(1,3) assms(4) h(2) assms(5,6)])
next
  assume "namespace \<noteq> [] \<and> newline \<notin> set indent \<and> c \<noteq> CHR ''.''"
  then have h: "namespace \<noteq> []" "newline \<notin> set indent" "c \<noteq> CHR ''.''" by simp_all
  show "rewrite_text item namespace [lib] [] (indent @ ''import '' @ lib @ c # more)
          = Inr (indent @ ''import '' @ lib @ c # more)"
    by (rule longer_name_end_to_end [OF assms(1,2) h(1) assms(4) h(2) assms(7,8) h(3)])
qed

theorem plain_import_rewritten_witness:
  "rewrite_plain_import ''vend'' ''os''
       (''x = 1'' @ [newline] @ ''  import os # c'' @ [newline] @ ''import os'')
     = Inr (''x = 1'' @ [newline] @ ''  from vend import os # c'' @ [newline] @ ''from vend import os'')
   \<and> rewrite_plain_import ''vend'' ''os''
       (''x = 1'' @ [newline] @ ''  import osxpath'' @ [newline] @ ''import os'')
     = Inr (''x = 1'' @ [newline] @ ''  import osxpath'' @ [newline] @ ''from vend import os'')
   \<and> rewrite_text [''m.py''] ''vend'' [''os''] [] ''  import os # c'' = Inr ''  from vend import os # c''
   \<and> rewrite_text [''m.py''] ''vend'' [''os''] [] ''  import osxpath'' = Inr ''  import osxpath''"
proof -
  have h: "list_all isident ''os''" "list_all isdotted ''vend''"
    "''x = 1'' @ [newline] = [] \<or> last (''x = 1'' @ [newline]) = newline"
    "list_all isspace ''  ''"
    "newline \<notin> set '' # c''" "'' # c'' = [] \<or> isspace (hd '' # c'')"
    "newline \<notin> set ''path''" "\<not> isspace CHR ''x''"
    by code_simp+
  have e: "''vend'' \<noteq> [] \<and> newline \<notin> set ''  ''
      \<and> take (Suc (length ''os'')) (''vend'' @ ''.'') \<noteq> ''os'' @ ''.''"
    "''vend'' \<noteq> [] \<and> newline \<notin> set ''  '' \<and> CHR ''x'' \<noteq> CHR ''.''"
    by code_simp+
  have p: "rewrite_plain_import ''vend'' ''os'' (''x = 1'' @ [newline]) = Inr (''x = 1'' @ [newline])"
    "rewrite_plain_import ''vend'' ''os'' ''import os'' = Inr ''from vend import os''"
    by code_simp+
  from plain_import_rewritten [OF h, of "''import os''" "[''m.py'']"] e p
  show ?thesis by auto
qed

text \<open>
  Claim C4 as stated fails.  A file named \<open>.py\<close> gives the library name \<open>''''\<close>, and with it the relative
  import \<open>from . import x\<close> is rewritten; with the library name \<open>a+b\<close> the line
  \<open>from a+b import x\<close> is not rewritten.
\<close>

theorem from_import_counterexample:
  "fst (detect_vendored_libs [''dst''] [(''.py'', File [])]) = ['''']
   \<and> rewrite_from_import ''vend'' [] ''from . import x'' = Inr ''from vend.. import x''
   \<and> rewrite_from_import ''vend'' ''a+b'' ''from a+b import x'' = Inr ''from a+b import x''"
  by code_simp

text \<open>
  Claim C4, amended.  For a non-empty library name of letters, digits and underscores and a namespace
  of such names joined by dots, the last substitution rewrites a line \<open>from lib\<close> that is followed
  by a dot or by whitespace to \<open>from namespace.lib\<close> and keeps the indentation and the rest of the
  line, which covers \<open>from lib import x\<close> and \<open>from lib.sub import x\<close>; it leaves a relative import
  \<open>from .\<close> alone; and it rewrites the lines before and after as it does on their own.  When the
  namespace is not empty, the four steps for this library together give the same lines.
\<close>

theorem from_import_rewritten:
  assumes "list_all isident lib" and "lib \<noteq> []" and "list_all isdotted namespace"
    and "pre = [] \<or> last pre = newline" and "list_all isspace indent"
    and "newline \<notin> set trail" and "d = CHR ''.'' \<or> isspace d" and "d \<noteq> newline"
  shows "(\<exists>pre' post'.
        rewrite_from_import namespace lib pre = Inr pre'
      \<and> rewrite_from_import namespace lib post = Inr post'
      \<and> rewrite_from_import namespace lib (pre @ indent @ ''from '' @ lib @ d # trail @ newline # post)
          = Inr (pre' @ indent @ ''from '' @ namespace @ ''.'' @ lib @ d # trail @ newline # post')
      \<and> rewrite_from_import namespace lib (pre @ indent @ ''from '' @ lib @ d # trail)
          = Inr (pre' @ indent @ ''from '' @ namespace @ ''.'' @ lib @ d # trail)
      \<and> rewrite_from_import namespace lib (pre @ indent @ ''from .'' @ trail @ newline # post)
          = Inr (pre' @ indent @ ''from .'' @ trail @ newline # post')
      \<and> rewrite_from_import namespace lib (pre @ indent @ ''from .'' @ trail)
          = Inr (pre' @ indent @ ''from .'' @ trail))
    \<and> (namespace \<noteq> [] \<and> newline \<notin> set indent
       \<longrightarrow> rewrite_text item namespace [lib] [] (indent @ ''from '' @ lib @ d # trail)
            = Inr (indent @ ''from '' @ namespace @ ''.'' @ lib @ d # trail)
         \<and> rewrite_text item namespace [lib] [] (indent @ ''from .'' @ trail)
            = Inr (indent @ ''from .'' @ trail))"
proof (intro conjI impI)
  show "\<exists>pre' post'.
        rewrite_from_import namespace lib pre = Inr pre'
      \<and> rewrite_from_import namespace lib post = Inr post'
      \<and> rewrite_from_import namespace lib (pre @ indent @ ''from '' @ lib @ d # trail @ newline # post)
          = Inr (pre' @ indent @ ''from '' @ namespace @ ''.'' @ lib @ d # trail @ newline # post')
      \<and> rewrite_from_import namespace lib (pre @ indent @ ''from '' @ lib @ d # trail)
          = Inr (pre' @ indent @ ''from '' @ namespace @ ''.'' @ lib @ d # trail)
      \<and> rewrite_from_import namespace lib (pre @ indent @ ''from .'' @ trail @ newline # post)
          = Inr (pre' @ indent @ ''from .'' @ trail @ newline # post')
      \<and> rewrite_from_import namespace lib (pre @ indent @ ''from .'' @ trail)
          = Inr (pre' @ indent @ ''from .'' @ trail)"
    by (rule from_import_lines [OF assms(1,2) no_bsl_dotted [OF assms(3)] assms(4-8)])
next
  assume "namespace \<noteq> [] \<and> newline \<notin> set indent"
  then have h: "namespace \<noteq> []" "newline \<notin> set indent" by simp_all
  show "rewrite_text item namespace [lib] [] (indent @ ''from '' @ lib @ d # trail)
            = Inr (indent @ ''from '' @ namespace @ ''.'' @ lib @ d # trail)"
    by (rule from_import_end_to_end [OF assms(1,3) h(1) assms(5) h(2) assms(6-8)])
next
  assume "namespace \<noteq> [] \<and> newline \<notin> set indent"
  then have h: "namespace \<noteq> []" "newline \<notin> set indent" by simp_all
  show "rewrite_text item namespace [lib] [] (indent @ ''from .'' @ trail)
            = Inr (indent @ ''from .'' @ trail)"
    by (rule relative_import_end_to_end [OF assms(1,2,3) h(1) assms(5) h(2) assms(6)])
qed

theorem from_import_rewritten_witness:
  "rewrite_from_import ''vend'' ''a''
       (''import z'' @ [newline] @ ''  from a.sub import x'' @ [newline] @ ''from a import y'')
     = Inr (''import z'' @ [newline] @ ''  from vend.a.sub import x'' @ [newline] @ ''from vend.a import y'')
   \<and> rewrite_from_import ''vend'' ''a''
       (''import z'' @ [newline] @ ''  from .sub import x'' @ [newline] @ ''from a import y'')
     = Inr (''import z'' @ [newline] @ ''  from .sub import x'' @ [newline] @ ''from vend.a import y'')
   \<and> rewrite_text [''m.py''] ''vend'' [''a''] [] ''  from a.sub import x''
     = Inr ''  from vend.a.sub import x''
   \<and> rewrite_text [''m.py''] ''vend'' [''a''] [] ''  from .sub import x''
     = Inr ''  from .sub import x''"
proof -
  have h: "list_all isident ''a''" "''a'' \<noteq> []" "list_all isdotted ''vend''"
    "''import z'' @ [newline] = [] \<or> last (''import z'' @ [newline]) = newline"
    "list_all isspace ''  ''"
    "newline \<notin> set ''sub import x''" "CHR ''.'' = CHR ''.'' \<or> isspace CHR ''.''"
    "CHR ''.'' \<noteq> newline"
    by code_simp+
  have e: "''vend'' \<noteq> [] \<and> newline \<notin> set ''  ''" by code_simp
  have p: "rewrite_from_import ''vend'' ''a'' (''import z'' @ [newline]) = Inr (''import z'' @ [newline])"
    "rewrite_from_import ''vend'' ''a'' ''from a import y'' = Inr ''from vend.a import y''"
    by code_simp+
  from from_import_rewritten [OF h, of "''from a import y''" "[''m.py'']"] e p
  show ?thesis by auto
qed

end
